theory Spec2Isabelle
  imports Main "HOL-Library.Signed_Division" "HOL-Library.Monad_Syntax"
begin

section \<open>Go strings\<close>

text \<open>
  A Go \<open>string\<close> holds UTF-8 bytes. Every string this program handles is valid UTF-8
  (the table description comes out of the JSON decoder, the border glyphs are string
  literals), so a string is modelled by the sequence of its code points, Go's
  \<open>[]rune(s)\<close>. On such strings concatenation, \<open>strings.Repeat\<close>, the removal of the
  ASCII pair \<open>**\<close>, \<open>for _, c := range s\<close> and the regular expression engine all act on
  whole code points, and \<open>len([]rune(s))\<close> is the length of the list. Offsets into a
  string count code points here where Go counts bytes; they are only ever used to cut
  a string at the boundaries the matcher returned.
\<close>

type_synonym rune = nat
type_synonym gostring = "rune list"

definition runes :: "string \<Rightarrow> gostring" where
  "runes s = map of_char s"

definition space :: rune where "space = 32"
definition star :: rune where "star = 42"
definition newline :: rune where "newline = 10"

text \<open>\<open>strings.Repeat\<close> panics on a negative count; \<open>None\<close> is the panic.\<close>

definition Repeat :: "gostring \<Rightarrow> int \<Rightarrow> gostring option" where
  "Repeat s count = (if count < 0 then None else Some (concat (replicate (nat count) s)))"

text \<open>
  \<open>strings.ToLower\<close> maps every code point through \<open>unicode.ToLower\<close>: the ASCII
  letters \<open>A\<close>..\<open>Z\<close> move to \<open>a\<close>..\<open>z\<close>, every other ASCII code point stays, and a
  code point above 127 goes through the Unicode case tables, which are the parameter
  \<open>tab\<close> of the model.
\<close>

definition toLowerRune :: "(rune \<Rightarrow> rune) \<Rightarrow> rune \<Rightarrow> rune" where
  "toLowerRune tab r =
     (if r \<le> 127 then (if 65 \<le> r \<and> r \<le> 90 then r + 32 else r) else tab r)"

definition ToLower :: "(rune \<Rightarrow> rune) \<Rightarrow> gostring \<Rightarrow> gostring" where
  "ToLower tab s = map (toLowerRune tab) s"

section \<open>Package tables: data\<close>

typedecl float64

record FontConfig =
  Path :: gostring
  Size :: float64

record PNGConfig =
  TitleFont :: FontConfig
  ContentFont :: FontConfig
  ASCIIFont :: FontConfig

record TableConfig =
  Type :: gostring
  Name :: gostring
  Headers :: "gostring list"
  Rows :: "gostring list list"
  Alignment :: "gostring list"
  PNG :: "PNGConfig option"

text \<open>\<open>AlignmentType\<close> is a string type with three named constants.\<close>

type_synonym AlignmentType = gostring

definition AlignLeft :: AlignmentType where "AlignLeft = runes ''left''"
definition AlignCenter :: AlignmentType where "AlignCenter = runes ''center''"
definition AlignRight :: AlignmentType where "AlignRight = runes ''right''"

record TableStyle =
  TopLeft :: gostring
  TopRight :: gostring
  BottomLeft :: gostring
  BottomRight :: gostring
  Horizontal :: gostring
  Vertical :: gostring
  TopJoin :: gostring
  BottomJoin :: gostring
  LeftJoin :: gostring
  RightJoin :: gostring
  Cross :: gostring

definition singleLineFull :: TableStyle where
  "singleLineFull =
     \<lparr>TopLeft = [0x250C], TopRight = [0x2510], BottomLeft = [0x2514], BottomRight = [0x2518],
      Horizontal = [0x2500], Vertical = [0x2502], TopJoin = [0x252C], BottomJoin = [0x2534],
      LeftJoin = [0x251C], RightJoin = [0x2524], Cross = [0x253C]\<rparr>"

definition doubleLineFull :: TableStyle where
  "doubleLineFull =
     \<lparr>TopLeft = [0x2554], TopRight = [0x2557], BottomLeft = [0x255A], BottomRight = [0x255D],
      Horizontal = [0x2550], Vertical = [0x2551], TopJoin = [0x2566], BottomJoin = [0x2569],
      LeftJoin = [0x2560], RightJoin = [0x2563], Cross = [0x256C]\<rparr>"

text \<open>
  The package variable \<open>tableStyles\<close> is a mutable map; the functions that read or
  write it take the current map as an argument. This is its initial value.
\<close>

definition tableStyles :: "gostring \<rightharpoonup> TableStyle" where
  "tableStyles =
     [runes ''single-line-full'' \<mapsto> singleLineFull,
      runes ''double-line-full'' \<mapsto> doubleLineFull]"

record ASCIITableRenderer =
  Style :: TableStyle

section \<open>Package tables: column widths and cell formatting\<close>

definition parseAlignment :: "(rune \<Rightarrow> rune) \<Rightarrow> gostring \<Rightarrow> AlignmentType" where
  "parseAlignment tab align =
     (let l = ToLower tab align in
      if l = runes ''center'' \<or> l = runes ''centre'' then AlignCenter
      else if l = runes ''right'' then AlignRight
      else AlignLeft)"

text \<open>
  \<open>strings.ReplaceAll(text, "**", "")\<close> deletes the occurrences of \<open>**\<close> found by a
  scan from the left that resumes after each occurrence.
\<close>

fun cleanText :: "gostring \<Rightarrow> gostring" where
  "cleanText (a # b # rest) =
     (if a = star \<and> b = star then cleanText rest else a # cleanText (b # rest))"
| "cleanText text = text"

definition getDisplayLength :: "gostring \<Rightarrow> int" where
  "getDisplayLength text = int (length (cleanText text))"

text \<open>The three loops of \<open>calculateColumnWidths\<close>, each over the array \<open>colWidths\<close>.\<close>

fun seedWidths :: "int list \<Rightarrow> nat \<Rightarrow> gostring list \<Rightarrow> int list" where
  "seedWidths colWidths i [] = colWidths"
| "seedWidths colWidths i (header # rest) =
     seedWidths (colWidths[i := getDisplayLength header]) (Suc i) rest"

fun raiseWidths :: "int list \<Rightarrow> nat \<Rightarrow> gostring list \<Rightarrow> int list" where
  "raiseWidths colWidths i [] = colWidths"
| "raiseWidths colWidths i (cell # rest) =
     (if i < length colWidths then
        (let cellLen = getDisplayLength cell in
         if cellLen > colWidths ! i then raiseWidths (colWidths[i := cellLen]) (Suc i) rest
         else raiseWidths colWidths (Suc i) rest)
      else raiseWidths colWidths (Suc i) rest)"

definition calculateColumnWidths :: "TableConfig \<Rightarrow> int list" where
  "calculateColumnWidths config =
     (if length (Headers config) = 0 then []
      else
        let colWidths = replicate (length (Headers config)) 0;
            colWidths = seedWidths colWidths 0 (Headers config);
            colWidths = fold (\<lambda>row cw. raiseWidths cw 0 row) (Rows config) colWidths
        in map (\<lambda>w. w + 2) colWidths)"

definition getColumnAlignment :: "(rune \<Rightarrow> rune) \<Rightarrow> TableConfig \<Rightarrow> nat \<Rightarrow> AlignmentType" where
  "getColumnAlignment tab config columnIndex =
     (if columnIndex < length (Alignment config)
      then parseAlignment tab (Alignment config ! columnIndex)
      else AlignLeft)"

text \<open>Go's \<open>/\<close> on \<open>int\<close> truncates towards zero: \<open>sdiv\<close>.\<close>

definition formatCellContent :: "gostring \<Rightarrow> int \<Rightarrow> AlignmentType \<Rightarrow> gostring option" where
  "formatCellContent content width alignment =
     (let cleanContent = cleanText content;
          contentLen = getDisplayLength content;
          width = (if width < contentLen + 2 then contentLen + 2 else width);
          spacesNeeded = width - contentLen
      in
        if alignment = AlignCenter then
          (let leftSpaces = spacesNeeded sdiv 2;
               rightSpaces = spacesNeeded - leftSpaces
           in do {
             l \<leftarrow> Repeat [space] leftSpaces;
             r \<leftarrow> Repeat [space] rightSpaces;
             Some (l @ cleanContent @ r)
           })
        else if alignment = AlignRight then
          (let leftSpaces = spacesNeeded - 1
           in do {
             l \<leftarrow> Repeat [space] leftSpaces;
             Some (l @ cleanContent @ [space])
           })
        else
          (let rightSpaces = spacesNeeded - 1
           in do {
             r \<leftarrow> Repeat [space] rightSpaces;
             Some ([space] @ cleanContent @ r)
           }))"

section \<open>Package tables: the renderer\<close>

text \<open>
  \<open>Render\<close> appends to one \<open>strings.Builder\<close>. Each block of the function is a
  definition here that returns the text the block appends; \<open>None\<close> is a panic
  (a negative repeat count, an index out of range).
\<close>

text \<open>
  The loop \<open>for i, width := range colWidths\<close> that draws a border; \<open>n\<close> is
  \<open>len(colWidths)\<close>.
\<close>

fun borderCols :: "gostring \<Rightarrow> gostring \<Rightarrow> nat \<Rightarrow> nat \<Rightarrow> int list \<Rightarrow> gostring option" where
  "borderCols horizontal join n i [] = Some []"
| "borderCols horizontal join n i (width # rest) = do {
     seg \<leftarrow> Repeat horizontal width;
     more \<leftarrow> borderCols horizontal join n (Suc i) rest;
     Some (seg @ (if int i < int n - 1 then join else []) @ more)
   }"

definition borderLine ::
  "gostring \<Rightarrow> gostring \<Rightarrow> gostring \<Rightarrow> gostring \<Rightarrow> int list \<Rightarrow> gostring option" where
  "borderLine left horizontal join right colWidths = do {
     cols \<leftarrow> borderCols horizontal join (length colWidths) 0 colWidths;
     Some (left @ cols @ right @ [newline])
   }"

text \<open>The loop over the headers reads \<open>colWidths[i]\<close> unguarded.\<close>

fun headerCells ::
  "(rune \<Rightarrow> rune) \<Rightarrow> TableStyle \<Rightarrow> TableConfig \<Rightarrow> int list \<Rightarrow> nat \<Rightarrow> gostring list
     \<Rightarrow> gostring option" where
  "headerCells tab st config colWidths i [] = Some []"
| "headerCells tab st config colWidths i (header # rest) =
     (if i < length colWidths then do {
        formattedCell \<leftarrow>
          formatCellContent header (colWidths ! i) (getColumnAlignment tab config i);
        more \<leftarrow> headerCells tab st config colWidths (Suc i) rest;
        Some (formattedCell @ Vertical st @ more)
      } else None)"

text \<open>The loop over the cells of a data row skips a cell past the last column.\<close>

fun rowCells ::
  "(rune \<Rightarrow> rune) \<Rightarrow> TableStyle \<Rightarrow> TableConfig \<Rightarrow> int list \<Rightarrow> nat \<Rightarrow> gostring list
     \<Rightarrow> gostring option" where
  "rowCells tab st config colWidths i [] = Some []"
| "rowCells tab st config colWidths i (cell # rest) =
     (if i < length colWidths then do {
        formattedCell \<leftarrow>
          formatCellContent cell (colWidths ! i) (getColumnAlignment tab config i);
        more \<leftarrow> rowCells tab st config colWidths (Suc i) rest;
        Some (formattedCell @ Vertical st @ more)
      } else rowCells tab st config colWidths (Suc i) rest)"

definition headerRow ::
  "(rune \<Rightarrow> rune) \<Rightarrow> TableStyle \<Rightarrow> TableConfig \<Rightarrow> int list \<Rightarrow> gostring option" where
  "headerRow tab st config colWidths = do {
     cells \<leftarrow> headerCells tab st config colWidths 0 (Headers config);
     Some (Vertical st @ cells @ [newline])
   }"

definition dataRow ::
  "(rune \<Rightarrow> rune) \<Rightarrow> TableStyle \<Rightarrow> TableConfig \<Rightarrow> int list \<Rightarrow> gostring list
     \<Rightarrow> gostring option" where
  "dataRow tab st config colWidths row = do {
     cells \<leftarrow> rowCells tab st config colWidths 0 row;
     Some (Vertical st @ cells @ [newline])
   }"

text \<open>The loop over the data rows; \<open>n\<close> is \<open>len(config.Rows)\<close>.\<close>

fun dataRows ::
  "(rune \<Rightarrow> rune) \<Rightarrow> TableStyle \<Rightarrow> TableConfig \<Rightarrow> int list \<Rightarrow> nat \<Rightarrow> nat
     \<Rightarrow> gostring list list \<Rightarrow> gostring option" where
  "dataRows tab st config colWidths n rowIdx [] = Some []"
| "dataRows tab st config colWidths n rowIdx (row # rest) = do {
     line \<leftarrow> dataRow tab st config colWidths row;
     sep \<leftarrow> (if int rowIdx < int n - 1
             then borderLine (LeftJoin st) (Horizontal st) (Cross st) (RightJoin st) colWidths
             else Some []);
     more \<leftarrow> dataRows tab st config colWidths n (Suc rowIdx) rest;
     Some (line @ sep @ more)
   }"

definition Render :: "(rune \<Rightarrow> rune) \<Rightarrow> ASCIITableRenderer \<Rightarrow> TableConfig \<Rightarrow> gostring option" where
  "Render tab r config =
     (if length (Rows config) = 0 \<or> length (Headers config) = 0 then Some []
      else
        let colWidths = calculateColumnWidths config; st = Style r in do {
          top \<leftarrow> borderLine (TopLeft st) (Horizontal st) (TopJoin st) (TopRight st) colWidths;
          hdr \<leftarrow> headerRow tab st config colWidths;
          sep \<leftarrow> borderLine (LeftJoin st) (Horizontal st) (Cross st) (RightJoin st) colWidths;
          rows \<leftarrow> dataRows tab st config colWidths (length (Rows config)) 0 (Rows config);
          bottom \<leftarrow>
            borderLine (BottomLeft st) (Horizontal st) (BottomJoin st) (BottomRight st) colWidths;
          Some (top @ hdr @ sep @ rows @ bottom)
        })"

section \<open>Package tables: the style registry\<close>

text \<open>
  Go iterates over a map in an unspecified order, so the list of names that
  \<open>getAvailableTypes\<close> builds is known only up to order: the model returns the set of
  keys. The error of \<open>GetRenderer\<close> is a message formatted from the requested name and
  that list; the model keeps the two arguments of the format.
\<close>

datatype error = UnknownTableType gostring "gostring set"

definition getAvailableTypes :: "(gostring \<rightharpoonup> TableStyle) \<Rightarrow> gostring set" where
  "getAvailableTypes styles = dom styles"

definition GetRenderer ::
  "(rune \<Rightarrow> rune) \<Rightarrow> (gostring \<rightharpoonup> TableStyle) \<Rightarrow> gostring \<Rightarrow> error + ASCIITableRenderer" where
  "GetRenderer tab styles tableType =
     (case styles (ToLower tab tableType) of
        None \<Rightarrow> Inl (UnknownTableType tableType (getAvailableTypes styles))
      | Some style \<Rightarrow> Inr \<lparr>Style = style\<rparr>)"

definition RegisterTableStyle ::
  "(rune \<Rightarrow> rune) \<Rightarrow> gostring \<Rightarrow> TableStyle \<Rightarrow> (gostring \<rightharpoonup> TableStyle)
     \<Rightarrow> (gostring \<rightharpoonup> TableStyle)" where
  "RegisterTableStyle tab name style styles = styles(ToLower tab name \<mapsto> style)"

section \<open>Package output: the segmenter\<close>

text \<open>
  \<open>TextType\<close> is an \<open>int\<close> type with three named constants;
  \<open>classifyTextSegments\<close> also uses the value \<open>-1\<close> of the type for "no type yet".
\<close>

type_synonym TextType = int

definition ASCIIText :: TextType where "ASCIIText = 0"
definition HeaderText :: TextType where "HeaderText = 1"
definition ContentText :: TextType where "ContentText = 2"

record TextSegment =
  Text :: gostring
  Type' :: TextType

text \<open>The string literal of box drawing characters, written twice in the source.\<close>

definition boxChars :: gostring where
  "boxChars =
     [0x250C, 0x2510, 0x2514, 0x2518, 0x251C, 0x2524, 0x252C, 0x2534, 0x253C, 0x2500, 0x2502,
      0x2554, 0x2557, 0x255A, 0x255D, 0x2560, 0x2563, 0x2566, 0x2569, 0x256C, 0x2550, 0x2551]"

text \<open>
  The regular expression \<open>\*\*([^*]+)\*\*\<close>. At a given position it matches in at
  most one way: two stars, the longest run of characters other than a star, which must
  not be empty, and two stars. \<open>boldMatchAt s\<close> is the length of the match at the start
  of \<open>s\<close>. \<open>FindAllStringSubmatchIndex\<close> returns the leftmost match at or after a
  position and goes on after the end of that match; a match is the four offsets
  \<open>match[0]\<close>..\<open>match[3]\<close>: the start and the end of the match and of the group.
\<close>

fun boldMatchAt :: "gostring \<Rightarrow> nat option" where
  "boldMatchAt (a # b # rest) =
     (if a = star \<and> b = star then
        (let body = takeWhile (\<lambda>c. c \<noteq> star) rest;
             after = dropWhile (\<lambda>c. c \<noteq> star) rest
         in if body \<noteq> [] \<and> take 2 after = [star, star]
            then Some (length body + 4) else None)
      else None)"
| "boldMatchAt s = None"

function FindAllStringSubmatchIndex :: "gostring \<Rightarrow> nat \<Rightarrow> (nat \<times> nat \<times> nat \<times> nat) list" where
  "FindAllStringSubmatchIndex line pos =
     (if length line \<le> pos then []
      else (case boldMatchAt (drop pos line) of
              Some n \<Rightarrow> (pos, pos + n, pos + 2, pos + n - 2) # FindAllStringSubmatchIndex line (pos + n)
            | None \<Rightarrow> FindAllStringSubmatchIndex line (Suc pos)))"
  by pat_completeness auto
termination
  by (relation "measure (\<lambda>(line, pos). length line - pos)")
    (auto elim!: boldMatchAt.elims simp: Let_def split: if_splits)

declare FindAllStringSubmatchIndex.simps [simp del]

text \<open>The loop of \<open>classifyTextSegments\<close> over the characters of the text.\<close>

fun classifyLoop ::
  "gostring \<Rightarrow> TextSegment list \<Rightarrow> gostring \<Rightarrow> TextType \<Rightarrow> gostring
     \<Rightarrow> TextSegment list \<times> gostring \<times> TextType" where
  "classifyLoop allASCIIChars segments currentSegment currentType [] =
     (segments, currentSegment, currentType)"
| "classifyLoop allASCIIChars segments currentSegment currentType (char # rest) =
     (let charType = (if char \<in> set allASCIIChars then ASCIIText else ContentText);
          currentType = (if currentType = - 1 then charType else currentType)
      in
        if charType = currentType
        then classifyLoop allASCIIChars segments (currentSegment @ [char]) currentType rest
        else
          (let segments =
                 (if length currentSegment > 0
                  then segments @ [\<lparr>Text = currentSegment, Type' = currentType\<rparr>]
                  else segments)
           in classifyLoop allASCIIChars segments [char] charType rest))"

definition classifyTextSegments :: "gostring \<Rightarrow> gostring \<Rightarrow> TextSegment list" where
  "classifyTextSegments text asciiChars =
     (let allASCIIChars = asciiChars @ boxChars;
          (segments, currentSegment, currentType) = classifyLoop allASCIIChars [] [] (- 1) text
      in
        if length currentSegment > 0
        then segments @ [\<lparr>Text = currentSegment, Type' = currentType\<rparr>]
        else segments)"

text \<open>
  \<open>s[lo:hi]\<close>, which panics in Go unless \<open>lo \<le> hi \<le> len(s)\<close>. The offsets the
  segmenter uses come from the matcher and satisfy this (lemma \<open>FindAll_bounds\<close>).
\<close>

definition slice :: "gostring \<Rightarrow> nat \<Rightarrow> nat \<Rightarrow> gostring" where
  "slice s lo hi = take (hi - lo) (drop lo s)"

text \<open>The loop of \<open>parseLineSegments\<close> over the matches.\<close>

fun boldLoop ::
  "gostring \<Rightarrow> gostring \<Rightarrow> TextSegment list \<Rightarrow> nat \<Rightarrow> (nat \<times> nat \<times> nat \<times> nat) list
     \<Rightarrow> TextSegment list \<times> nat" where
  "boldLoop line asciiChars segments lastIndex [] = (segments, lastIndex)"
| "boldLoop line asciiChars segments lastIndex ((start, end, groupStart, groupEnd) # rest) =
     (let segments =
            (if start > lastIndex
             then segments @ classifyTextSegments (slice line lastIndex start) asciiChars
             else segments);
          boldText = slice line groupStart groupEnd;
          segments = segments @ [\<lparr>Text = boldText, Type' = HeaderText\<rparr>]
      in boldLoop line asciiChars segments end rest)"

definition parseLineSegments :: "gostring \<Rightarrow> TextSegment list" where
  "parseLineSegments line =
     (let asciiChars = boxChars;
          boldMatches = FindAllStringSubmatchIndex line 0;
          (segments, lastIndex) = boldLoop line asciiChars [] 0 boldMatches
      in
        if lastIndex < length line
        then segments @ classifyTextSegments (drop lastIndex line) asciiChars
        else segments)"

section \<open>Notions of the specification\<close>

text \<open>The cells of the rows that stand at column \<open>i\<close>.\<close>

definition columnCells :: "nat \<Rightarrow> gostring list list \<Rightarrow> gostring set" where
  "columnCells i rows = (\<lambda>row. row ! i) ` {row \<in> set rows. i < length row}"

text \<open>
  The padding the specification asks for around a cell of display length \<open>L\<close> in a
  width \<open>W\<close>: leading and trailing spaces.
\<close>

definition padding :: "AlignmentType \<Rightarrow> int \<Rightarrow> int \<Rightarrow> nat \<times> nat" where
  "padding alignment W L =
     (if alignment = AlignCenter then (nat ((W - L) div 2), nat ((W - L + 1) div 2))
      else if alignment = AlignRight then (nat (W - L - 1), 1)
      else (1, nat (W - L - 1)))"

text \<open>
  The text of a cell in a column of a given width: the cell without its markers, padded
  as the specification says.
\<close>

definition paddedCell :: "AlignmentType \<Rightarrow> int \<Rightarrow> gostring \<Rightarrow> gostring" where
  "paddedCell alignment width content =
     (let L = getDisplayLength content; p = padding alignment (max width (L + 2)) L
      in replicate (fst p) space @ cleanText content @ replicate (snd p) space)"

text \<open>A row line, without its line feed, made of formatted cells.\<close>

definition rowLine :: "TableStyle \<Rightarrow> gostring list \<Rightarrow> gostring" where
  "rowLine st cells = Vertical st @ concat (map (\<lambda>f. f @ Vertical st) cells)"

text \<open>A text in which no two stars stand side by side.\<close>

definition noPair :: "gostring \<Rightarrow> bool" where
  "noPair s = successively (\<lambda>a b. \<not> (a = star \<and> b = star)) s"

text \<open>
  The lines of a rendered grid in order, each without its line feed, and the text they
  make up.
\<close>

definition unlines :: "gostring list \<Rightarrow> gostring" where
  "unlines ls = concat (map (\<lambda>l. l @ [newline]) ls)"

text \<open>The lines of the data rows with a separator line between two of them.\<close>

fun intersperse :: "'a \<Rightarrow> 'a list \<Rightarrow> 'a list" where
  "intersperse sep [] = []"
| "intersperse sep [x] = [x]"
| "intersperse sep (x # y # zs) = x # sep # intersperse sep (y # zs)"

text \<open>
  The texts of the cells of a row as the specification formats them: the cells that
  stand below a header, each padded to the computed width of its column.
\<close>

definition cellTexts :: "(rune \<Rightarrow> rune) \<Rightarrow> TableConfig \<Rightarrow> gostring list \<Rightarrow> gostring list" where
  "cellTexts tab config cells =
     map (\<lambda>(k, c). paddedCell (getColumnAlignment tab config k) (calculateColumnWidths config ! k) c)
       (zip [0..<length (calculateColumnWidths config)] cells)"

text \<open>
  Maximal runs: adjacent characters of one class are merged into one segment, a change
  of class starts a new segment.
\<close>

fun runs :: "(rune \<Rightarrow> TextType) \<Rightarrow> gostring \<Rightarrow> TextSegment list" where
  "runs cls [] = []"
| "runs cls (c # cs) =
     (case runs cls cs of
        [] \<Rightarrow> [\<lparr>Text = [c], Type' = cls c\<rparr>]
      | s # ss \<Rightarrow>
          if Type' s = cls c then \<lparr>Text = c # Text s, Type' = cls c\<rparr> # ss
          else \<lparr>Text = [c], Type' = cls c\<rparr> # s # ss)"

text \<open>The class of a character outside an emphasis run, for a set of border glyphs.\<close>

definition glyphClass :: "rune set \<Rightarrow> rune \<Rightarrow> TextType" where
  "glyphClass glyphs c = (if c \<in> glyphs then ASCIIText else ContentText)"

text \<open>
  A line cut into its emphasis runs (the text between a pair of markers, the markers
  dropped) and the stretches of text outside them.
\<close>

datatype piece = Plain gostring | Bold gostring

fun prependPlain :: "gostring \<Rightarrow> piece list \<Rightarrow> piece list" where
  "prependPlain [] ps = ps"
| "prependPlain t (Plain u # ps) = Plain (t @ u) # ps"
| "prependPlain t ps = Plain t # ps"

function splitEmphasis :: "gostring \<Rightarrow> piece list" where
  "splitEmphasis [] = []"
| "splitEmphasis (c # cs) =
     (case boldMatchAt (c # cs) of
        Some n \<Rightarrow> Bold (take (n - 4) (drop 2 (c # cs))) # splitEmphasis (drop n (c # cs))
      | None \<Rightarrow> prependPlain [c] (splitEmphasis cs))"
  by pat_completeness auto
termination
  by (relation "measure length")
    (auto elim!: boldMatchAt.elims simp: Let_def split: if_splits)

fun pieceText :: "piece \<Rightarrow> gostring" where
  "pieceText (Plain t) = t"
| "pieceText (Bold b) = b"

text \<open>
  The segments of a piece: an emphasis run is one segment of type \<open>HeaderText\<close>, a
  stretch outside the emphasis runs falls into maximal runs of one class.
\<close>

fun pieceSegments :: "(rune \<Rightarrow> TextType) \<Rightarrow> piece \<Rightarrow> TextSegment list" where
  "pieceSegments cls (Plain t) = runs cls t"
| "pieceSegments cls (Bold b) = [\<lparr>Text = b, Type' = HeaderText\<rparr>]"

fun isPlain :: "piece \<Rightarrow> bool" where
  "isPlain (Plain t) = True"
| "isPlain (Bold b) = False"

text \<open>
  Neighbouring segments never share a class, unless both are emphasis runs; and in a line
  cut into pieces no two stretches of plain text are neighbours.
\<close>

definition separated :: "TextType list \<Rightarrow> bool" where
  "separated ts = successively (\<lambda>a b. a = b \<longrightarrow> a = HeaderText) ts"

definition alternating :: "piece list \<Rightarrow> bool" where
  "alternating ps = successively (\<lambda>p q. \<not> (isPlain p \<and> isPlain q)) ps"

text \<open>The segments that a state of the classifier's loop stands for, and likewise for
  the loop over the matches.\<close>

definition finish :: "TextSegment list \<times> gostring \<times> TextType \<Rightarrow> TextSegment list" where
  "finish = (\<lambda>(segments, currentSegment, currentType).
     if length currentSegment > 0
     then segments @ [\<lparr>Text = currentSegment, Type' = currentType\<rparr>] else segments)"

definition finishLine :: "gostring \<Rightarrow> gostring \<Rightarrow> TextSegment list \<times> nat \<Rightarrow> TextSegment list" where
  "finishLine line asciiChars = (\<lambda>(segments, lastIndex).
     if lastIndex < length line
     then segments @ classifyTextSegments (drop lastIndex line) asciiChars else segments)"

text \<open>The line with the markers of every emphasis run removed.\<close>

definition withoutMarkers :: "gostring \<Rightarrow> gostring" where
  "withoutMarkers line = concat (map pieceText (splitEmphasis line))"

text \<open>The class of every character of a piece, given the class of a plain character.\<close>

fun pieceClasses :: "(rune \<Rightarrow> TextType) \<Rightarrow> piece \<Rightarrow> TextType list" where
  "pieceClasses cls (Plain t) = map cls t"
| "pieceClasses cls (Bold b) = replicate (length b) HeaderText"

text \<open>The class a list of segments gives to every character of its text.\<close>

definition charClasses :: "TextSegment list \<Rightarrow> TextType list" where
  "charClasses segments = concat (map (\<lambda>s. replicate (length (Text s)) (Type' s)) segments)"

text \<open>The glyphs of a style, and of all the styles of a registry.\<close>

definition styleGlyphs :: "TableStyle \<Rightarrow> rune set" where
  "styleGlyphs st =
     set (TopLeft st) \<union> set (TopRight st) \<union> set (BottomLeft st) \<union> set (BottomRight st) \<union>
     set (Horizontal st) \<union> set (Vertical st) \<union> set (TopJoin st) \<union> set (BottomJoin st) \<union>
     set (LeftJoin st) \<union> set (RightJoin st) \<union> set (Cross st)"

definition registeredGlyphs :: "(gostring \<rightharpoonup> TableStyle) \<Rightarrow> rune set" where
  "registeredGlyphs styles = {c. \<exists>name st. styles name = Some st \<and> c \<in> styleGlyphs st}"

text \<open>The registry after a sequence of registrations on top of the built-in styles.\<close>

definition registerAll ::
  "(rune \<Rightarrow> rune) \<Rightarrow> (gostring \<times> TableStyle) list \<Rightarrow> (gostring \<rightharpoonup> TableStyle)" where
  "registerAll tab regs = fold (\<lambda>(name, style). RegisterTableStyle tab name style) regs tableStyles"

section \<open>Example tables\<close>

text \<open>
  The table of the specification's scenario: two headers, one row, no alignment hints,
  style \<open>single-line-full\<close>.
\<close>

definition scenarioTable :: TableConfig where
  "scenarioTable =
     \<lparr>Type = runes ''single-line-full'', Name = [], Headers = [runes ''A'', runes ''BB''],
      Rows = [[runes ''x'', runes ''yy'']], Alignment = [], PNG = None\<rparr>"

text \<open>
  A table with emphasis markers, a centred column, a row longer than the headers and a
  row shorter than them.
\<close>

definition raggedTable :: TableConfig where
  "raggedTable =
     \<lparr>Type = runes ''double-line-full'', Name = runes ''ragged'',
      Headers = [runes ''A'', runes ''BB''],
      Rows = [[runes ''**xyz**'', runes ''yy'', runes ''overflow''], [runes ''q'']],
      Alignment = [runes ''Centre''], PNG = None\<rparr>"


text \<open>
  The style with rounded corners that the project's README registers as an example of a
  style added at run time.
\<close>

definition roundedStyle :: TableStyle where
  "roundedStyle =
     \<lparr>TopLeft = [0x256D], TopRight = [0x256E], BottomLeft = [0x2570], BottomRight = [0x256F],
      Horizontal = [0x2500], Vertical = [0x2502], TopJoin = [0x252C], BottomJoin = [0x2534],
      LeftJoin = [0x251C], RightJoin = [0x2524], Cross = [0x253C]\<rparr>"

section \<open>Cell formatting: lemmas\<close>

lemma Align_distinct:
  "AlignCenter \<noteq> AlignRight" "AlignLeft \<noteq> AlignCenter" "AlignLeft \<noteq> AlignRight"
  by (simp_all add: AlignCenter_def AlignRight_def AlignLeft_def runes_def)

lemma getDisplayLength_nonneg: "0 \<le> getDisplayLength text"
  by (simp add: getDisplayLength_def)

lemma Repeat_single: "0 \<le> k \<Longrightarrow> Repeat [c] k = Some (replicate (nat k) c)"
proof -
  have "concat (replicate n [c]) = replicate n c" for n
    by (induction n) auto
  then show "0 \<le> k \<Longrightarrow> Repeat [c] k = Some (replicate (nat k) c)"
    by (simp add: Repeat_def)
qed

lemma sdiv_two: "0 \<le> (k::int) \<Longrightarrow> k sdiv 2 = k div 2"
  by (simp add: signed_divide_int_def sgn_if)

lemma formatCellContent_left:
  "alignment \<noteq> AlignCenter \<Longrightarrow> alignment \<noteq> AlignRight \<Longrightarrow>
   formatCellContent content width alignment =
     Some ([space] @ cleanText content @
           replicate (nat (max width (getDisplayLength content + 2) - getDisplayLength content - 1)) space)"
  using getDisplayLength_nonneg [of content]
  by (auto simp: formatCellContent_def Let_def Repeat_single max_def)

lemma formatCellContent_right:
  "formatCellContent content width AlignRight =
     Some (replicate (nat (max width (getDisplayLength content + 2) - getDisplayLength content - 1)) space
           @ cleanText content @ [space])"
  using getDisplayLength_nonneg [of content]
  by (auto simp: formatCellContent_def Let_def Align_distinct Align_distinct[symmetric] Repeat_single max_def)

lemma formatCellContent_center:
  "formatCellContent content width AlignCenter =
     Some (replicate (nat ((max width (getDisplayLength content + 2) - getDisplayLength content) div 2)) space
           @ cleanText content @
           replicate (nat ((max width (getDisplayLength content + 2) - getDisplayLength content + 1) div 2)) space)"
proof -
  define L where "L = getDisplayLength content"
  define E where "E = max width (L + 2)"
  have L: "0 \<le> L" by (simp add: L_def getDisplayLength_nonneg)
  have E: "L + 2 \<le> E" by (simp add: E_def)
  have s: "(E - L) sdiv 2 = (E - L) div 2" using E by (intro sdiv_two) simp
  have c: "E - L - (E - L) div 2 = (E - L + 1) div 2" by presburger
  have n1: "0 \<le> (E - L) div 2" using E by simp
  have n2: "0 \<le> (E - L + 1) div 2" using E by simp
  have w: "(if width < L + 2 then L + 2 else width) = E" by (simp add: E_def max_def)
  show ?thesis
    unfolding formatCellContent_def Let_def L_def[symmetric] w E_def[symmetric]
    by (simp add: s c Repeat_single[OF n1] Repeat_single[OF n2])
qed

lemma formatCellContent_padding:
  "formatCellContent content width alignment =
     (let L = getDisplayLength content; p = padding alignment (max width (L + 2)) L
      in Some (replicate (fst p) space @ cleanText content @ replicate (snd p) space))"
proof -
  consider "alignment = AlignCenter" | "alignment = AlignRight"
    | "alignment \<noteq> AlignCenter" "alignment \<noteq> AlignRight"
    by blast
  then show ?thesis
  proof cases
    case 1
    then show ?thesis
      by (simp add: formatCellContent_center padding_def Let_def)
  next
    case 2
    then show ?thesis
      by (simp add: formatCellContent_right padding_def Let_def Align_distinct[symmetric])
  next
    case 3
    then show ?thesis
      by (simp add: formatCellContent_left padding_def Let_def)
  qed
qed

lemma padding_sum:
  assumes "0 \<le> L" "L + 2 \<le> W"
  shows "int (fst (padding alignment W L)) + L + int (snd (padding alignment W L)) = W"
    and "1 \<le> fst (padding alignment W L)" and "1 \<le> snd (padding alignment W L)"
proof -
  have c: "(W - L) div 2 + (W - L + 1) div 2 = W - L" by presburger
  have f: "1 \<le> (W - L) div 2" "1 \<le> (W - L + 1) div 2" using assms by presburger+
  show "int (fst (padding alignment W L)) + L + int (snd (padding alignment W L)) = W"
    using assms c f by (auto simp: padding_def)
  show "1 \<le> fst (padding alignment W L)" "1 \<le> snd (padding alignment W L)"
    using assms f by (auto simp: padding_def)
qed

section \<open>Column widths: lemmas\<close>

lemma length_seedWidths: "length (seedWidths cw i hs) = length cw"
  by (induction hs arbitrary: cw i) auto

lemma nth_seedWidths:
  "j < length cw \<Longrightarrow>
   seedWidths cw i hs ! j =
     (if i \<le> j \<and> j < i + length hs then getDisplayLength (hs ! (j - i)) else cw ! j)"
proof (induction hs arbitrary: cw i)
  case Nil
  then show ?case by simp
next
  case (Cons h hs)
  then show ?case
    by (auto simp: nth_list_update nth_Cons' Suc_diff_le not_less_eq_eq)
qed

lemma seedWidths_eq:
  "seedWidths (replicate (length hs) 0) 0 hs = map getDisplayLength hs"
  by (rule nth_equalityI) (simp_all add: length_seedWidths nth_seedWidths)

lemma length_raiseWidths: "length (raiseWidths cw i cells) = length cw"
  by (induction cells arbitrary: cw i) (auto simp: Let_def)

lemma nth_raiseWidths:
  "j < length cw \<Longrightarrow>
   raiseWidths cw i cells ! j =
     (if i \<le> j \<and> j < i + length cells then max (cw ! j) (getDisplayLength (cells ! (j - i)))
      else cw ! j)"
proof (induction cells arbitrary: cw i)
  case Nil
  then show ?case by simp
next
  case (Cons c cells)
  then show ?case
    by (auto simp: Let_def nth_list_update nth_Cons' Suc_diff_le not_less_eq_eq max_def)
qed

lemma length_fold_raiseWidths:
  "length (fold (\<lambda>row cw. raiseWidths cw 0 row) rows cw) = length cw"
  by (induction rows arbitrary: cw) (auto simp: length_raiseWidths)

lemma columnCells_Cons:
  "columnCells i (row # rows) =
     (if i < length row then insert (row ! i) (columnCells i rows) else columnCells i rows)"
  by (auto simp: columnCells_def)

lemma finite_columnCells: "finite (columnCells i rows)"
  by (simp add: columnCells_def)

lemma nth_fold_raiseWidths:
  "j < length cw \<Longrightarrow>
   fold (\<lambda>row cw. raiseWidths cw 0 row) rows cw ! j =
     Max (insert (cw ! j) (getDisplayLength ` columnCells j rows))"
proof (induction rows arbitrary: cw)
  case Nil
  then show ?case by (simp add: columnCells_def)
next
  case (Cons row rows)
  have fin: "finite (getDisplayLength ` columnCells j rows)"
    by (simp add: finite_columnCells)
  have "fold (\<lambda>row cw. raiseWidths cw 0 row) (row # rows) cw ! j =
        Max (insert (raiseWidths cw 0 row ! j) (getDisplayLength ` columnCells j rows))"
    using Cons by (simp add: length_raiseWidths)
  also have "\<dots> = Max (insert (cw ! j) (getDisplayLength ` columnCells j (row # rows)))"
  proof (cases "j < length row")
    case True
    have "Max (insert (max (cw ! j) (getDisplayLength (row ! j))) (getDisplayLength ` columnCells j rows))
          = Max (insert (cw ! j) (insert (getDisplayLength (row ! j)) (getDisplayLength ` columnCells j rows)))"
      using fin by (cases "getDisplayLength ` columnCells j rows = {}") (simp_all add: max.assoc)
    with True Cons.prems show ?thesis
      by (simp add: nth_raiseWidths columnCells_Cons)
  next
    case False
    with Cons.prems show ?thesis
      by (simp add: nth_raiseWidths columnCells_Cons)
  qed
  finally show ?case .
qed

lemma raiseWidths_take:
  "raiseWidths cw i (take (length cw - i) cells) = raiseWidths cw i cells"
proof (induction cells arbitrary: cw i)
  case Nil
  then show ?case by simp
next
  case (Cons c cells)
  show ?case
  proof (cases "i < length cw")
    case True
    then obtain k where k: "length cw - i = Suc k" by (cases "length cw - i") auto
    then have k': "length cw - Suc i = k" by simp
    show ?thesis
      using True Cons.IH[of cw "Suc i"] Cons.IH[of "cw[i := getDisplayLength c]" "Suc i"]
      by (simp add: k k' Let_def)
  next
    case False
    have "raiseWidths cw i' cs = cw" if "length cw \<le> i'" for i' cs
      using that by (induction cs arbitrary: i') auto
    with False show ?thesis by simp
  qed
qed

lemma fold_raiseWidths_take:
  "n = length cw \<Longrightarrow>
   fold (\<lambda>row cw. raiseWidths cw 0 row) (map (take n) rows) cw =
   fold (\<lambda>row cw. raiseWidths cw 0 row) rows cw"
proof (induction rows arbitrary: cw)
  case Nil
  then show ?case by simp
next
  case (Cons row rows)
  have "n = length (raiseWidths cw 0 row)"
    using Cons.prems by (simp add: length_raiseWidths)
  from Cons.IH[OF this] show ?case
    using raiseWidths_take[of cw 0 row] Cons.prems by simp
qed

lemma length_calculateColumnWidths:
  "length (calculateColumnWidths config) = length (Headers config)"
  by (simp add: calculateColumnWidths_def Let_def length_fold_raiseWidths length_seedWidths)

lemma nth_calculateColumnWidths:
  assumes "i < length (Headers config)"
  shows "calculateColumnWidths config ! i =
     2 + Max (insert (getDisplayLength (Headers config ! i))
                (getDisplayLength ` columnCells i (Rows config)))"
proof -
  from assms have ne: "length (Headers config) \<noteq> 0" by auto
  show ?thesis
    using assms unfolding calculateColumnWidths_def Let_def if_not_P[OF ne]
    by (simp add: length_fold_raiseWidths seedWidths_eq nth_fold_raiseWidths)
qed

lemma calculateColumnWidths_take:
  "calculateColumnWidths (config\<lparr>Rows := map (take (length (Headers config))) (Rows config)\<rparr>)
   = calculateColumnWidths config"
  by (simp add: calculateColumnWidths_def Let_def seedWidths_eq fold_raiseWidths_take)

lemma ragged_widths: "calculateColumnWidths raggedTable = [5, 4]"
  by (simp add: raggedTable_def calculateColumnWidths_def getDisplayLength_def runes_def star_def)

section \<open>Column widths\<close>

text \<open>
  C2. The array of column widths has one entry for each header (none when there is no
  header). The width of column \<open>i\<close> is 2 plus the greatest display length among header
  \<open>i\<close> and the cells that stand at index \<open>i\<close> of a row; the display length of a text is
  the number of code points left once the emphasis markers are deleted. Cutting every
  row down to the number of headers changes no width: a cell past the header range has
  no influence.
\<close>

theorem calculateColumnWidths_spec:
  "length (calculateColumnWidths config) = length (Headers config) \<and>
   (Headers config = [] \<longrightarrow> calculateColumnWidths config = []) \<and>
   (\<forall>i < length (Headers config).
      calculateColumnWidths config ! i =
        2 + Max (insert (getDisplayLength (Headers config ! i))
                   (getDisplayLength ` columnCells i (Rows config)))) \<and>
   calculateColumnWidths (config\<lparr>Rows := map (take (length (Headers config))) (Rows config)\<rparr>)
     = calculateColumnWidths config"
proof (intro conjI allI impI)
  show "length (calculateColumnWidths config) = length (Headers config)"
    by (rule length_calculateColumnWidths)
  show "calculateColumnWidths config = []" if "Headers config = []"
    using that by (simp add: calculateColumnWidths_def)
  show "calculateColumnWidths config ! i =
        2 + Max (insert (getDisplayLength (Headers config ! i))
                   (getDisplayLength ` columnCells i (Rows config)))"
    if "i < length (Headers config)" for i
    using that by (rule nth_calculateColumnWidths)
  show "calculateColumnWidths
          (config\<lparr>Rows := map (take (length (Headers config))) (Rows config)\<rparr>)
        = calculateColumnWidths config"
    by (rule calculateColumnWidths_take)
qed

theorem calculateColumnWidths_spec_witness:
  "length (calculateColumnWidths raggedTable) = 2 \<and>
   (0::nat) < length (Headers raggedTable) \<and>
   calculateColumnWidths raggedTable ! 0 =
     2 + Max (insert (getDisplayLength (Headers raggedTable ! 0))
                (getDisplayLength ` columnCells 0 (Rows raggedTable))) \<and>
   calculateColumnWidths raggedTable ! 0 = 5 \<and>
   calculateColumnWidths (raggedTable\<lparr>Rows := map (take 2) (Rows raggedTable)\<rparr>) = [5, 4]"
proof -
  have h: "length (Headers raggedTable) = 2" by (simp add: raggedTable_def)
  note spec = calculateColumnWidths_spec [of raggedTable]
  from spec have len: "length (calculateColumnWidths raggedTable) = 2"
    by (simp add: h)
  from spec have "\<forall>i < length (Headers raggedTable).
      calculateColumnWidths raggedTable ! i =
        2 + Max (insert (getDisplayLength (Headers raggedTable ! i))
                   (getDisplayLength ` columnCells i (Rows raggedTable)))"
    by blast
  then have nth: "calculateColumnWidths raggedTable ! 0 =
     2 + Max (insert (getDisplayLength (Headers raggedTable ! 0))
                (getDisplayLength ` columnCells 0 (Rows raggedTable)))"
    by (simp add: h)
  from spec have "calculateColumnWidths
      (raggedTable\<lparr>Rows := map (take 2) (Rows raggedTable)\<rparr>) = calculateColumnWidths raggedTable"
    by (simp add: h)
  with len nth show ?thesis
    by (simp add: ragged_widths h)
qed

section \<open>Cell formatting\<close>

text \<open>
  C3. Let \<open>L\<close> be the display length of a cell and \<open>W\<close> the width it is formatted in:
  the width asked for, raised to \<open>L + 2\<close> when it is smaller. The formatted cell is the
  whole text without its markers between spaces, at least one on each side: with left
  alignment one space before and \<open>W - L - 1\<close> after, with right alignment
  \<open>W - L - 1\<close> before and one after, with centre alignment the floor of \<open>(W - L) / 2\<close>
  before and the ceiling after.
\<close>

theorem formatCellContent_alignment:
  "(let L = getDisplayLength content; W = max width (L + 2) in
      (if width < L + 2 then W = L + 2 else W = width) \<and>
      formatCellContent content width AlignLeft =
        Some (replicate 1 space @ cleanText content @ replicate (nat (W - L - 1)) space) \<and>
      formatCellContent content width AlignRight =
        Some (replicate (nat (W - L - 1)) space @ cleanText content @ replicate 1 space) \<and>
      formatCellContent content width AlignCenter =
        Some (replicate (nat ((W - L) div 2)) space @ cleanText content @
              replicate (nat ((W - L + 1) div 2)) space) \<and>
      1 \<le> W - L - 1 \<and> 1 \<le> (W - L) div 2 \<and> (W - L) div 2 \<le> (W - L + 1) div 2)"
proof -
  define L where "L = getDisplayLength content"
  define W where "W = max width (L + 2)"
  have W: "L + 2 \<le> W" by (simp add: W_def)
  have "formatCellContent content width AlignLeft =
        Some (replicate 1 space @ cleanText content @ replicate (nat (W - L - 1)) space)"
    by (simp add: formatCellContent_left Align_distinct W_def L_def)
  moreover have "formatCellContent content width AlignRight =
        Some (replicate (nat (W - L - 1)) space @ cleanText content @ replicate 1 space)"
    by (simp add: formatCellContent_right W_def L_def)
  moreover have "formatCellContent content width AlignCenter =
        Some (replicate (nat ((W - L) div 2)) space @ cleanText content @
              replicate (nat ((W - L + 1) div 2)) space)"
    by (simp add: formatCellContent_center W_def L_def)
  moreover have "if width < L + 2 then W = L + 2 else W = width"
    by (simp add: W_def max_def)
  moreover have "1 \<le> W - L - 1" "1 \<le> (W - L) div 2" "(W - L) div 2 \<le> (W - L + 1) div 2"
    using W by presburger+
  ultimately show ?thesis
    unfolding Let_def L_def [symmetric] W_def [symmetric] by blast
qed

theorem formatCellContent_alignment_witness:
  "formatCellContent (runes ''**ab**'') 7 AlignLeft = Some (runes '' ab    '') \<and>
   formatCellContent (runes ''**ab**'') 7 AlignRight = Some (runes ''    ab '') \<and>
   formatCellContent (runes ''**ab**'') 7 AlignCenter = Some (runes ''  ab   '') \<and>
   formatCellContent (runes ''**ab**'') 1 AlignCenter = Some (runes '' ab '')"
  using formatCellContent_alignment [of "runes ''**ab**''" 7]
    formatCellContent_alignment [of "runes ''**ab**''" 1]
  by (simp add: Let_def getDisplayLength_def runes_def star_def space_def eval_nat_numeral)

section \<open>The degenerate table\<close>

text \<open>
  C7. A table description with no rows or with no headers renders to the empty string,
  whatever its other fields, the style and the case tables are.
\<close>

theorem Render_degenerate:
  "Rows config = [] \<or> Headers config = [] \<Longrightarrow> Render tab r config = Some []"
  by (auto simp: Render_def)

theorem Render_degenerate_witness:
  "(Rows \<lparr>Type = runes ''single-line-full'', Name = [], Headers = [runes ''A''], Rows = [],
          Alignment = [], PNG = None\<rparr> = []
    \<or> Headers \<lparr>Type = runes ''single-line-full'', Name = [], Headers = [runes ''A''], Rows = [],
          Alignment = [], PNG = None\<rparr> = [])
   \<and> Render (\<lambda>r. r) \<lparr>Style = singleLineFull\<rparr>
        \<lparr>Type = runes ''single-line-full'', Name = [], Headers = [runes ''A''], Rows = [],
          Alignment = [], PNG = None\<rparr> = Some []"
  using Render_degenerate [of "\<lparr>Type = runes ''single-line-full'', Name = [],
          Headers = [runes ''A''], Rows = [], Alignment = [], PNG = None\<rparr>"
          "\<lambda>r. r" "\<lparr>Style = singleLineFull\<rparr>"]
  by simp

section \<open>The scenario of the specification\<close>

lemma scenario_widths: "calculateColumnWidths scenarioTable = [3, 4]"
  by (simp add: scenarioTable_def calculateColumnWidths_def getDisplayLength_def runes_def star_def)

lemma scenario_lookup:
  "GetRenderer tab tableStyles (Type scenarioTable) = Inr \<lparr>Style = singleLineFull\<rparr>"
  by (simp add: GetRenderer_def scenarioTable_def tableStyles_def ToLower_def toLowerRune_def
      runes_def)

lemma scenario_border:
  "borderLine [l] [h] [j] [r] [3, 4] = Some [l, h, h, h, j, h, h, h, h, r, newline]"
  by (simp add: borderLine_def Repeat_def eval_nat_numeral)

lemma scenario_alignment: "getColumnAlignment tab scenarioTable i = AlignLeft"
  by (simp add: getColumnAlignment_def scenarioTable_def)

lemma scenario_cells:
  "formatCellContent (runes ''A'') 3 AlignLeft = Some (runes '' A '')"
  "formatCellContent (runes ''BB'') 4 AlignLeft = Some (runes '' BB '')"
  "formatCellContent (runes ''x'') 3 AlignLeft = Some (runes '' x '')"
  "formatCellContent (runes ''yy'') 4 AlignLeft = Some (runes '' yy '')"
  by (simp_all add: formatCellContent_left Align_distinct getDisplayLength_def runes_def
      star_def space_def)

lemma scenario_headerRow:
  "headerRow tab singleLineFull scenarioTable [3, 4] =
     Some ([0x2502] @ runes '' A '' @ [0x2502] @ runes '' BB '' @ [0x2502] @ [newline])"
proof -
  have hs: "Headers scenarioTable = [runes ''A'', runes ''BB'']"
    by (simp add: scenarioTable_def)
  show ?thesis
    by (simp add: headerRow_def hs scenario_alignment scenario_cells singleLineFull_def)
qed

lemma scenario_dataRow:
  "dataRow tab singleLineFull scenarioTable [3, 4] [runes ''x'', runes ''yy''] =
     Some ([0x2502] @ runes '' x '' @ [0x2502] @ runes '' yy '' @ [0x2502] @ [newline])"
  by (simp add: dataRow_def scenario_alignment scenario_cells singleLineFull_def)

text \<open>
  C4. For the headers \<open>A\<close>, \<open>BB\<close>, the single row \<open>x\<close>, \<open>yy\<close>, no alignment hints and
  the style \<open>single-line-full\<close>, the style is found, the column widths are 3 and 4, and
  the text has five lines: the top border, the header row (U+2502, \<open>A\<close> between spaces,
  U+2502, \<open>BB\<close> between spaces, U+2502), the separator, the data row in the same shape
  and the bottom border.
\<close>

theorem scenario_render:
  "GetRenderer tab tableStyles (Type scenarioTable) = Inr \<lparr>Style = singleLineFull\<rparr> \<and>
   calculateColumnWidths scenarioTable = [3, 4] \<and>
   Render tab \<lparr>Style = singleLineFull\<rparr> scenarioTable =
     Some (unlines
       [[0x250C, 0x2500, 0x2500, 0x2500, 0x252C, 0x2500, 0x2500, 0x2500, 0x2500, 0x2510],
        [0x2502] @ runes '' A '' @ [0x2502] @ runes '' BB '' @ [0x2502],
        [0x251C, 0x2500, 0x2500, 0x2500, 0x253C, 0x2500, 0x2500, 0x2500, 0x2500, 0x2524],
        [0x2502] @ runes '' x '' @ [0x2502] @ runes '' yy '' @ [0x2502],
        [0x2514, 0x2500, 0x2500, 0x2500, 0x2534, 0x2500, 0x2500, 0x2500, 0x2500, 0x2518]])"
proof -
  have rows: "Rows scenarioTable = [[runes ''x'', runes ''yy'']]"
    and hs: "Headers scenarioTable = [runes ''A'', runes ''BB'']"
    by (simp_all add: scenarioTable_def)
  have st: "TopLeft singleLineFull = [0x250C]" "TopRight singleLineFull = [0x2510]"
    "BottomLeft singleLineFull = [0x2514]" "BottomRight singleLineFull = [0x2518]"
    "Horizontal singleLineFull = [0x2500]" "TopJoin singleLineFull = [0x252C]"
    "BottomJoin singleLineFull = [0x2534]" "LeftJoin singleLineFull = [0x251C]"
    "RightJoin singleLineFull = [0x2524]" "Cross singleLineFull = [0x253C]"
    by (simp_all add: singleLineFull_def)
  have "Render tab \<lparr>Style = singleLineFull\<rparr> scenarioTable =
     Some (unlines
       [[0x250C, 0x2500, 0x2500, 0x2500, 0x252C, 0x2500, 0x2500, 0x2500, 0x2500, 0x2510],
        [0x2502] @ runes '' A '' @ [0x2502] @ runes '' BB '' @ [0x2502],
        [0x251C, 0x2500, 0x2500, 0x2500, 0x253C, 0x2500, 0x2500, 0x2500, 0x2500, 0x2524],
        [0x2502] @ runes '' x '' @ [0x2502] @ runes '' yy '' @ [0x2502],
        [0x2514, 0x2500, 0x2500, 0x2500, 0x2534, 0x2500, 0x2500, 0x2500, 0x2500, 0x2518]])"
    unfolding Render_def scenario_widths Let_def
    by (simp add: rows hs st scenario_border scenario_headerRow scenario_dataRow unlines_def)
  then show ?thesis
    using scenario_lookup scenario_widths by simp
qed

section \<open>The renderer: lemmas\<close>

lemma formatCellContent_paddedCell:
  "formatCellContent content width alignment = Some (paddedCell alignment width content)"
  by (simp add: formatCellContent_padding paddedCell_def Let_def)

lemma length_paddedCell:
  "int (length (paddedCell alignment width content)) = max width (getDisplayLength content + 2)"
proof -
  define L where "L = getDisplayLength content"
  define W where "W = max width (L + 2)"
  have "0 \<le> L" "L + 2 \<le> W" by (simp_all add: L_def W_def getDisplayLength_nonneg)
  from padding_sum(1)[OF this, of alignment] show ?thesis
    by (simp add: paddedCell_def Let_def L_def[symmetric] W_def[symmetric])
      (simp add: L_def getDisplayLength_def)
qed



lemma borderCols_Some:
  "\<forall>w \<in> set ws. 0 \<le> w \<Longrightarrow> \<exists>s. borderCols h j n i ws = Some s"
proof (induction ws arbitrary: i)
  case Nil
  then show ?case by simp
next
  case (Cons w ws)
  then obtain s where "borderCols h j n (Suc i) ws = Some s" by fastforce
  with Cons.prems show ?case by (simp add: Repeat_def)
qed

lemma borderLine_Some:
  "\<forall>w \<in> set ws. 0 \<le> w \<Longrightarrow> \<exists>s. borderLine l h j r ws = Some s"
  using borderCols_Some [of ws h j "length ws" 0] by (auto simp: borderLine_def)

lemma calculateColumnWidths_ge:
  assumes "i < length (Headers config)"
    and "cell \<in> insert (Headers config ! i) (columnCells i (Rows config))"
  shows "getDisplayLength cell + 2 \<le> calculateColumnWidths config ! i"
proof -
  have "getDisplayLength cell \<le> Max (insert (getDisplayLength (Headers config ! i))
                (getDisplayLength ` columnCells i (Rows config)))"
    using assms(2) by (intro Max_ge) (auto simp: finite_columnCells)
  then show ?thesis
    by (simp add: nth_calculateColumnWidths [OF assms(1)])
qed

lemma calculateColumnWidths_nonneg: "w \<in> set (calculateColumnWidths config) \<Longrightarrow> 2 \<le> w"
proof -
  assume "w \<in> set (calculateColumnWidths config)"
  then obtain i where i: "i < length (Headers config)" and w: "w = calculateColumnWidths config ! i"
    by (auto simp: in_set_conv_nth length_calculateColumnWidths)
  from calculateColumnWidths_ge [OF i, of "Headers config ! i"] getDisplayLength_nonneg [of "Headers config ! i"]
  show ?thesis by (simp add: w)
qed

lemma rowCells_eq:
  "rowCells tab st config cw i row =
     Some (concat (map (\<lambda>(k, c). paddedCell (getColumnAlignment tab config k) (cw ! k) c @ Vertical st)
                    (zip [i..<length cw] row)))"
proof (induction row arbitrary: i)
  case Nil
  then show ?case by simp
next
  case (Cons c row)
  show ?case
  proof (cases "i < length cw")
    case True
    then have "[i..<length cw] = i # [Suc i..<length cw]" by (rule upt_conv_Cons)
    with True show ?thesis
      by (simp add: Cons.IH formatCellContent_paddedCell)
  next
    case False
    then show ?thesis by (simp add: Cons.IH)
  qed
qed

lemma headerCells_eq:
  "i + length hs \<le> length cw \<Longrightarrow>
   headerCells tab st config cw i hs =
     Some (concat (map (\<lambda>(k, c). paddedCell (getColumnAlignment tab config k) (cw ! k) c @ Vertical st)
                    (zip [i..<length cw] hs)))"
proof (induction hs arbitrary: i)
  case Nil
  then show ?case by simp
next
  case (Cons h hs)
  then have i: "i < length cw" by simp
  then have "[i..<length cw] = i # [Suc i..<length cw]" by (rule upt_conv_Cons)
  with Cons i show ?case
    by (simp add: formatCellContent_paddedCell)
qed

lemma zip_take_right: "zip xs (take (length xs) ys) = zip xs ys"
proof -
  have "zip xs (take (length xs) ys) = take (length xs) (zip xs ys)"
    by (simp add: take_zip)
  then show ?thesis by simp
qed



lemma cleanText_noPair_id: "noPair s \<Longrightarrow> cleanText s = s"
  unfolding noPair_def
  by (induction s rule: cleanText.induct) auto

lemma cleanText_head: "b \<noteq> star \<Longrightarrow> \<exists>ys. cleanText (b # rest) = b # ys"
  by (cases rest) auto

lemma noPair_cleanText: "noPair (cleanText s)"
proof (induction s rule: cleanText.induct)
  case (1 a b rest)
  show ?case
  proof (cases "a = star \<and> b = star")
    case True
    with 1 show ?thesis by simp
  next
    case False
    then consider "a \<noteq> star" | "b \<noteq> star" by blast
    then show ?thesis
    proof cases
      case 1
      with "1.IH"(2) False show ?thesis
        by (cases "cleanText (b # rest)") (auto simp: noPair_def)
    next
      case 2
      then obtain ys where ys: "cleanText (b # rest) = b # ys"
        using cleanText_head by blast
      with "1.IH"(2) False 2 show ?thesis
        by (auto simp: noPair_def)
    qed
  qed
qed (simp_all add: noPair_def)

lemma noPair_space_Cons: "noPair s \<Longrightarrow> noPair (space # s)"
  by (simp add: noPair_def successively_Cons space_def star_def)

lemma noPair_space_snoc: "noPair s \<Longrightarrow> noPair (s @ [space])"
  by (simp add: noPair_def successively_append_iff space_def star_def)

lemma noPair_pad_left: "noPair s \<Longrightarrow> noPair (replicate l space @ s)"
  by (induction l) (simp_all add: noPair_space_Cons)

lemma noPair_pad_right: "noPair s \<Longrightarrow> noPair (s @ replicate r space)"
proof (induction r arbitrary: s)
  case 0
  then show ?case by simp
next
  case (Suc r)
  from Suc.IH [OF noPair_space_snoc [OF Suc.prems]] show ?case by simp
qed

lemma noPair_pad:
  assumes "noPair s"
  shows "noPair (replicate l space @ s @ replicate r space)"
  by (intro noPair_pad_left noPair_pad_right assms)

lemma getDisplayLength_paddedCell:
  "getDisplayLength (paddedCell alignment width content) =
     int (length (paddedCell alignment width content))"
proof -
  have "noPair (paddedCell alignment width content)"
    unfolding paddedCell_def Let_def by (intro noPair_pad noPair_cleanText)
  then show ?thesis
    by (simp add: getDisplayLength_def cleanText_noPair_id)
qed

lemma cells_concat:
  "concat (map (\<lambda>(k, c). P k c @ V) ps) = concat (map (\<lambda>f. f @ V) (map (\<lambda>(k, c). P k c) ps))"
  by (induction ps) auto

lemma headerRow_eq:
  "length cw = length (Headers config) \<Longrightarrow>
   headerRow tab st config cw =
     Some (rowLine st (map (\<lambda>(k, c). paddedCell (getColumnAlignment tab config k) (cw ! k) c)
                          (zip [0..<length cw] (Headers config))) @ [newline])"
  by (simp add: headerRow_def headerCells_eq rowLine_def cells_concat)

lemma dataRow_eq:
  "dataRow tab st config cw row =
     Some (rowLine st (map (\<lambda>(k, c). paddedCell (getColumnAlignment tab config k) (cw ! k) c)
                          (zip [0..<length cw] row)) @ [newline])"
  by (simp add: dataRow_def rowCells_eq rowLine_def cells_concat)

lemma dataRows_Some:
  "\<forall>w \<in> set cw. 0 \<le> w \<Longrightarrow> \<exists>s. dataRows tab st config cw n k rows = Some s"
proof (induction rows arbitrary: k)
  case Nil
  then show ?case by simp
next
  case (Cons row rows)
  from Cons obtain s where s: "dataRows tab st config cw n (Suc k) rows = Some s" by blast
  obtain b where b: "borderLine (LeftJoin st) (Horizontal st) (Cross st) (RightJoin st) cw = Some b"
    using borderLine_Some [OF Cons.prems] by blast
  show ?case by (simp add: dataRow_eq s b)
qed

lemma Render_Some: "\<exists>s. Render tab r config = Some s"
proof (cases "length (Rows config) = 0 \<or> length (Headers config) = 0")
  case True
  then show ?thesis by (simp add: Render_def)
next
  case False
  define cw where "cw = calculateColumnWidths config"
  have nn: "\<forall>w \<in> set cw. 0 \<le> w"
    using calculateColumnWidths_nonneg [of _ config] by (fastforce simp: cw_def)
  have len: "length cw = length (Headers config)"
    by (simp add: cw_def length_calculateColumnWidths)
  obtain t where t: "borderLine (TopLeft (Style r)) (Horizontal (Style r)) (TopJoin (Style r))
      (TopRight (Style r)) cw = Some t"
    using borderLine_Some [OF nn] by blast
  obtain m where m: "borderLine (LeftJoin (Style r)) (Horizontal (Style r)) (Cross (Style r))
      (RightJoin (Style r)) cw = Some m"
    using borderLine_Some [OF nn] by blast
  obtain b where b: "borderLine (BottomLeft (Style r)) (Horizontal (Style r)) (BottomJoin (Style r))
      (BottomRight (Style r)) cw = Some b"
    using borderLine_Some [OF nn] by blast
  obtain d where d: "dataRows tab (Style r) config cw (length (Rows config)) 0 (Rows config) = Some d"
    using dataRows_Some [OF nn] by blast
  from False show ?thesis
    unfolding Render_def Let_def cw_def [symmetric]
    by (simp add: t m b d headerRow_eq [OF len])
qed

lemma getColumnAlignment_cong:
  "Alignment c' = Alignment c \<Longrightarrow> getColumnAlignment tab c' k = getColumnAlignment tab c k"
  by (simp add: getColumnAlignment_def)

lemma dataRow_cong:
  assumes "Alignment c' = Alignment c" "take (length cw) row' = take (length cw) row"
  shows "dataRow tab st c' cw row' = dataRow tab st c cw row"
proof -
  have "zip [0..<length cw] row' = zip [0..<length cw] (take (length cw) row')"
    using zip_take_right [of "[0..<length cw]" row'] by simp
  also have "\<dots> = zip [0..<length cw] row"
    using zip_take_right [of "[0..<length cw]" row] assms(2) by simp
  finally show ?thesis
    by (simp add: dataRow_eq getColumnAlignment_cong [OF assms(1)])
qed

lemma dataRows_cong:
  assumes "Alignment c' = Alignment c"
  shows "map (take (length cw)) rows' = map (take (length cw)) rows \<Longrightarrow>
         dataRows tab st c' cw n k rows' = dataRows tab st c cw n k rows"
proof (induction rows arbitrary: rows' k)
  case Nil
  then show ?case by simp
next
  case (Cons row rows)
  then obtain row' rest' where r: "rows' = row' # rest'"
    "take (length cw) row' = take (length cw) row"
    "map (take (length cw)) rest' = map (take (length cw)) rows"
    by (cases rows') auto
  show ?case
    by (simp add: r(1) dataRow_cong [OF assms r(2)] Cons.IH [OF r(3)])
qed

lemma headerRow_cong:
  assumes "Alignment c' = Alignment c" "Headers c' = Headers c" "length cw = length (Headers c)"
  shows "headerRow tab st c' cw = headerRow tab st c cw"
  using assms by (simp add: headerRow_eq getColumnAlignment_cong [OF assms(1)])

lemma calculateColumnWidths_cong:
  assumes "Headers c' = Headers c"
    "map (take (length (Headers c))) (Rows c') = map (take (length (Headers c))) (Rows c)"
  shows "calculateColumnWidths c' = calculateColumnWidths c"
proof -
  have "calculateColumnWidths c' =
        calculateColumnWidths (c'\<lparr>Rows := map (take (length (Headers c'))) (Rows c')\<rparr>)"
    by (simp add: calculateColumnWidths_take)
  also have "\<dots> = calculateColumnWidths (c\<lparr>Rows := map (take (length (Headers c))) (Rows c)\<rparr>)"
    using assms by (simp add: calculateColumnWidths_def)
  also have "\<dots> = calculateColumnWidths c"
    by (simp add: calculateColumnWidths_take)
  finally show ?thesis .
qed

lemma Render_cong:
  assumes "Alignment c' = Alignment c" "Headers c' = Headers c"
    "map (take (length (Headers c))) (Rows c') = map (take (length (Headers c))) (Rows c)"
  shows "Render tab r c' = Render tab r c"
proof -
  have cw: "calculateColumnWidths c' = calculateColumnWidths c"
    using assms(2,3) by (rule calculateColumnWidths_cong)
  have len: "length (calculateColumnWidths c) = length (Headers c)"
    by (rule length_calculateColumnWidths)
  have n: "length (Rows c') = length (Rows c)"
    using assms(3) by (metis length_map)
  have h: "headerRow tab (Style r) c' (calculateColumnWidths c) =
           headerRow tab (Style r) c (calculateColumnWidths c)"
    using assms(1,2) len by (rule headerRow_cong)
  have d: "dataRows tab (Style r) c' (calculateColumnWidths c) (length (Rows c)) 0 (Rows c') =
           dataRows tab (Style r) c (calculateColumnWidths c) (length (Rows c)) 0 (Rows c)"
    using assms(3) by (intro dataRows_cong [OF assms(1)]) (simp add: len)
  show ?thesis
    unfolding Render_def Let_def cw n assms(2) h d ..
qed

lemma formatted_cells:
  fixes tab :: "rune \<Rightarrow> rune" and config :: TableConfig and cw :: "int list"
    and cells :: "gostring list" and n :: nat
  assumes len: "length cw = n"
    and wide: "\<forall>i < min (length cells) n. getDisplayLength (cells ! i) + 2 \<le> cw ! i"
  defines "fs \<equiv> map (\<lambda>(k, c). paddedCell (getColumnAlignment tab config k) (cw ! k) c)
                     (zip [0..<length cw] cells)"
  shows "length fs = min (length cells) n"
    and "\<forall>i < length fs.
           formatCellContent (cells ! i) (cw ! i) (getColumnAlignment tab config i) = Some (fs ! i) \<and>
           int (length (fs ! i)) = cw ! i \<and> getDisplayLength (fs ! i) = cw ! i"
proof -
  show l: "length fs = min (length cells) n"
    by (simp add: fs_def len min.commute)
  show "\<forall>i < length fs.
           formatCellContent (cells ! i) (cw ! i) (getColumnAlignment tab config i) = Some (fs ! i) \<and>
           int (length (fs ! i)) = cw ! i \<and> getDisplayLength (fs ! i) = cw ! i"
  proof (intro allI impI)
    fix i assume i: "i < length fs"
    with l have i': "i < length cells" "i < n" by simp_all
    have fi: "fs ! i = paddedCell (getColumnAlignment tab config i) (cw ! i) (cells ! i)"
      using i' len by (simp add: fs_def)
    have w: "getDisplayLength (cells ! i) + 2 \<le> cw ! i"
      using wide i' by simp
    have "int (length (fs ! i)) = cw ! i"
      using w by (simp add: fi length_paddedCell)
    then show "formatCellContent (cells ! i) (cw ! i) (getColumnAlignment tab config i) = Some (fs ! i) \<and>
           int (length (fs ! i)) = cw ! i \<and> getDisplayLength (fs ! i) = cw ! i"
      by (simp add: fi formatCellContent_paddedCell getDisplayLength_paddedCell)
  qed
qed

lemma row_in_columnCells:
  "row \<in> set rows \<Longrightarrow> i < length row \<Longrightarrow> row ! i \<in> columnCells i rows"
  by (auto simp: columnCells_def)

section \<open>The example tables: lemmas\<close>

lemma ragged_fields:
  "Headers raggedTable = [runes ''A'', runes ''BB'']"
  "Rows raggedTable = [[runes ''**xyz**'', runes ''yy'', runes ''overflow''], [runes ''q'']]"
  "Alignment raggedTable = [runes ''Centre'']"
  by (simp_all add: raggedTable_def)











text \<open>
  The rendered text, line by line: the top border, the header row, the separator, the
  line of each data row with a separator between two of them, and the bottom border.
  The cells of the header row and of the data rows are the texts \<open>cellTexts\<close>.
\<close>

lemma unlines_Cons: "unlines (l # ls) = l @ [newline] @ unlines ls"
  by (simp add: unlines_def)

lemma unlines_append: "unlines (xs @ ys) = unlines xs @ unlines ys"
  by (simp add: unlines_def)

lemma unlines_Nil: "unlines [] = []"
  by (simp add: unlines_def)

lemma borderLine_line:
  "\<forall>w \<in> set ws. 0 \<le> w \<Longrightarrow> \<exists>b. borderLine l h j r ws = Some (b @ [newline])"
proof -
  assume "\<forall>w \<in> set ws. 0 \<le> w"
  then obtain s where "borderCols h j (length ws) 0 ws = Some s"
    using borderCols_Some by blast
  then have "borderLine l h j r ws = Some ((l @ s @ r) @ [newline])"
    by (simp add: borderLine_def)
  then show ?thesis by blast
qed

lemma dataRow_cellTexts:
  "dataRow tab st config (calculateColumnWidths config) row =
     Some (rowLine st (cellTexts tab config row) @ [newline])"
  by (simp add: dataRow_eq cellTexts_def)

lemma headerRow_cellTexts:
  "headerRow tab st config (calculateColumnWidths config) =
     Some (rowLine st (cellTexts tab config (Headers config)) @ [newline])"
  by (simp add: headerRow_eq length_calculateColumnWidths cellTexts_def)

lemma dataRows_intersperse:
  assumes sep: "borderLine (LeftJoin st) (Horizontal st) (Cross st) (RightJoin st)
                  (calculateColumnWidths config) = Some (sep @ [newline])"
  shows "n = k + length rows \<Longrightarrow>
         dataRows tab st config (calculateColumnWidths config) n k rows =
           Some (unlines (intersperse sep (map (\<lambda>row. rowLine st (cellTexts tab config row)) rows)))"
proof (induction rows arbitrary: k)
  case Nil
  then show ?case by (simp add: unlines_Nil)
next
  case (Cons row rows)
  show ?case
  proof (cases rows)
    case Nil
    with Cons.prems show ?thesis
      by (simp add: dataRow_cellTexts unlines_Cons unlines_Nil)
  next
    case (Cons row2 rest)
    have "n = Suc k + length rows" using Cons.prems by simp
    from Cons.IH [OF this] Cons Cons.prems show ?thesis
      by (simp add: dataRow_cellTexts sep unlines_Cons)
  qed
qed

lemma Render_grid:
  assumes "Rows config \<noteq> []" "Headers config \<noteq> []"
  shows "\<exists>top sep bottom.
           borderLine (TopLeft (Style r)) (Horizontal (Style r)) (TopJoin (Style r))
             (TopRight (Style r)) (calculateColumnWidths config) = Some (top @ [newline]) \<and>
           borderLine (LeftJoin (Style r)) (Horizontal (Style r)) (Cross (Style r))
             (RightJoin (Style r)) (calculateColumnWidths config) = Some (sep @ [newline]) \<and>
           borderLine (BottomLeft (Style r)) (Horizontal (Style r)) (BottomJoin (Style r))
             (BottomRight (Style r)) (calculateColumnWidths config) = Some (bottom @ [newline]) \<and>
           Render tab r config =
             Some (unlines (top # rowLine (Style r) (cellTexts tab config (Headers config)) # sep #
                     intersperse sep
                       (map (\<lambda>row. rowLine (Style r) (cellTexts tab config row)) (Rows config))
                     @ [bottom]))"
proof -
  define cw where "cw = calculateColumnWidths config"
  have nn: "\<forall>w \<in> set cw. 0 \<le> w"
    using calculateColumnWidths_nonneg [of _ config] by (fastforce simp: cw_def)
  obtain t where t: "borderLine (TopLeft (Style r)) (Horizontal (Style r)) (TopJoin (Style r))
      (TopRight (Style r)) cw = Some (t @ [newline])"
    using borderLine_line [OF nn] by blast
  obtain m where m: "borderLine (LeftJoin (Style r)) (Horizontal (Style r)) (Cross (Style r))
      (RightJoin (Style r)) cw = Some (m @ [newline])"
    using borderLine_line [OF nn] by blast
  obtain b where b: "borderLine (BottomLeft (Style r)) (Horizontal (Style r)) (BottomJoin (Style r))
      (BottomRight (Style r)) cw = Some (b @ [newline])"
    using borderLine_line [OF nn] by blast
  have d: "dataRows tab (Style r) config cw (length (Rows config)) 0 (Rows config) =
        Some (unlines (intersperse m
          (map (\<lambda>row. rowLine (Style r) (cellTexts tab config row)) (Rows config))))"
    unfolding cw_def by (rule dataRows_intersperse [OF m [unfolded cw_def]]) simp
  have h: "headerRow tab (Style r) config cw =
        Some (rowLine (Style r) (cellTexts tab config (Headers config)) @ [newline])"
    unfolding cw_def by (rule headerRow_cellTexts)
  have "Render tab r config =
          Some (unlines (t # rowLine (Style r) (cellTexts tab config (Headers config)) # m #
                  intersperse m
                    (map (\<lambda>row. rowLine (Style r) (cellTexts tab config row)) (Rows config))
                  @ [b]))"
    using assms unfolding Render_def Let_def cw_def [symmetric]
    by (simp add: t m b d h unlines_Cons unlines_append unlines_Nil)
  with t m b show ?thesis
    unfolding cw_def by blast
qed

lemma cellTexts_cells:
  assumes "\<forall>i < min (length cells) (length (Headers config)).
             getDisplayLength (cells ! i) + 2 \<le> calculateColumnWidths config ! i"
  shows "length (cellTexts tab config cells) = min (length cells) (length (Headers config))"
    and "\<forall>i < length (cellTexts tab config cells).
           formatCellContent (cells ! i) (calculateColumnWidths config ! i)
             (getColumnAlignment tab config i) = Some (cellTexts tab config cells ! i) \<and>
           int (length (cellTexts tab config cells ! i)) = calculateColumnWidths config ! i \<and>
           getDisplayLength (cellTexts tab config cells ! i) = calculateColumnWidths config ! i"
  using formatted_cells [OF length_calculateColumnWidths assms, of tab config]
  unfolding cellTexts_def by blast+

lemma cellTexts_header:
  "length (cellTexts tab config (Headers config)) = length (Headers config)"
  "\<forall>i < length (cellTexts tab config (Headers config)).
     formatCellContent (Headers config ! i) (calculateColumnWidths config ! i)
       (getColumnAlignment tab config i) = Some (cellTexts tab config (Headers config) ! i) \<and>
     int (length (cellTexts tab config (Headers config) ! i)) = calculateColumnWidths config ! i \<and>
     getDisplayLength (cellTexts tab config (Headers config) ! i) = calculateColumnWidths config ! i"
proof -
  have w: "\<forall>i < min (length (Headers config)) (length (Headers config)).
          getDisplayLength (Headers config ! i) + 2 \<le> calculateColumnWidths config ! i"
    by (simp add: calculateColumnWidths_ge)
  from cellTexts_cells(1) [OF w, of tab]
  show "length (cellTexts tab config (Headers config)) = length (Headers config)" by simp
  from cellTexts_cells(2) [OF w, of tab]
  show "\<forall>i < length (cellTexts tab config (Headers config)).
     formatCellContent (Headers config ! i) (calculateColumnWidths config ! i)
       (getColumnAlignment tab config i) = Some (cellTexts tab config (Headers config) ! i) \<and>
     int (length (cellTexts tab config (Headers config) ! i)) = calculateColumnWidths config ! i \<and>
     getDisplayLength (cellTexts tab config (Headers config) ! i) = calculateColumnWidths config ! i" .
qed

lemma cellTexts_row:
  assumes "row \<in> set (Rows config)"
  shows "length (cellTexts tab config row) = min (length row) (length (Headers config))"
    and "\<forall>i < length (cellTexts tab config row).
           formatCellContent (row ! i) (calculateColumnWidths config ! i)
             (getColumnAlignment tab config i) = Some (cellTexts tab config row ! i) \<and>
           int (length (cellTexts tab config row ! i)) = calculateColumnWidths config ! i \<and>
           getDisplayLength (cellTexts tab config row ! i) = calculateColumnWidths config ! i"
proof -
  have w: "\<forall>i < min (length row) (length (Headers config)).
          getDisplayLength (row ! i) + 2 \<le> calculateColumnWidths config ! i"
    using assms by (simp add: calculateColumnWidths_ge row_in_columnCells)
  from cellTexts_cells(1) [OF w, of tab]
  show "length (cellTexts tab config row) = min (length row) (length (Headers config))" .
  from cellTexts_cells(2) [OF w, of tab]
  show "\<forall>i < length (cellTexts tab config row).
           formatCellContent (row ! i) (calculateColumnWidths config ! i)
             (getColumnAlignment tab config i) = Some (cellTexts tab config row ! i) \<and>
           int (length (cellTexts tab config row ! i)) = calculateColumnWidths config ! i \<and>
           getDisplayLength (cellTexts tab config row ! i) = calculateColumnWidths config ! i" .
qed


section \<open>One width for a column\<close>

text \<open>
  C5. The text that \<open>Render\<close> returns for a table with a header and a row is made of
  the border lines, the header row and the data rows, and in the header row and in every
  data row the cell written in column \<open>i\<close> is the result of formatting the text with
  the computed width of column \<open>i\<close>; its length and its display length are exactly
  that width. The width passed to the formatter is never raised for a single cell, so
  all the cells of a column are equally wide. A data row has a cell for each of its
  first entries, up to the number of headers.
\<close>

theorem column_width_shared:
  assumes "Rows config \<noteq> []" and "Headers config \<noteq> []"
  shows "\<exists>top sep bottom hs rss.
     borderLine (TopLeft (Style r)) (Horizontal (Style r)) (TopJoin (Style r))
       (TopRight (Style r)) (calculateColumnWidths config) = Some (top @ [newline]) \<and>
     borderLine (LeftJoin (Style r)) (Horizontal (Style r)) (Cross (Style r))
       (RightJoin (Style r)) (calculateColumnWidths config) = Some (sep @ [newline]) \<and>
     borderLine (BottomLeft (Style r)) (Horizontal (Style r)) (BottomJoin (Style r))
       (BottomRight (Style r)) (calculateColumnWidths config) = Some (bottom @ [newline]) \<and>
     Render tab r config =
       Some (unlines (top # rowLine (Style r) hs # sep #
               intersperse sep (map (rowLine (Style r)) rss) @ [bottom])) \<and>
     length hs = length (Headers config) \<and>
     (\<forall>i < length hs.
        formatCellContent (Headers config ! i) (calculateColumnWidths config ! i)
          (getColumnAlignment tab config i) = Some (hs ! i) \<and>
        int (length (hs ! i)) = calculateColumnWidths config ! i \<and>
        getDisplayLength (hs ! i) = calculateColumnWidths config ! i) \<and>
     length rss = length (Rows config) \<and>
     (\<forall>j < length rss.
        length (rss ! j) = min (length (Rows config ! j)) (length (Headers config)) \<and>
        (\<forall>i < length (rss ! j).
           formatCellContent (Rows config ! j ! i) (calculateColumnWidths config ! i)
             (getColumnAlignment tab config i) = Some (rss ! j ! i) \<and>
           int (length (rss ! j ! i)) = calculateColumnWidths config ! i \<and>
           getDisplayLength (rss ! j ! i) = calculateColumnWidths config ! i))"
proof -
  define hs where "hs = cellTexts tab config (Headers config)"
  define rss where "rss = map (cellTexts tab config) (Rows config)"
  from Render_grid [OF assms, of r tab] obtain top sep bottom where g:
    "borderLine (TopLeft (Style r)) (Horizontal (Style r)) (TopJoin (Style r))
       (TopRight (Style r)) (calculateColumnWidths config) = Some (top @ [newline])"
    "borderLine (LeftJoin (Style r)) (Horizontal (Style r)) (Cross (Style r))
       (RightJoin (Style r)) (calculateColumnWidths config) = Some (sep @ [newline])"
    "borderLine (BottomLeft (Style r)) (Horizontal (Style r)) (BottomJoin (Style r))
       (BottomRight (Style r)) (calculateColumnWidths config) = Some (bottom @ [newline])"
    "Render tab r config =
       Some (unlines (top # rowLine (Style r) (cellTexts tab config (Headers config)) # sep #
               intersperse sep
                 (map (\<lambda>row. rowLine (Style r) (cellTexts tab config row)) (Rows config))
               @ [bottom]))"
    by blast
  have m: "map (\<lambda>row. rowLine (Style r) (cellTexts tab config row)) (Rows config)
           = map (rowLine (Style r)) rss"
    by (simp add: rss_def comp_def)
  have R: "Render tab r config =
       Some (unlines (top # rowLine (Style r) hs # sep #
               intersperse sep (map (rowLine (Style r)) rss) @ [bottom]))"
    using g(4) unfolding m hs_def .
  have H1: "length hs = length (Headers config)"
    unfolding hs_def by (rule cellTexts_header(1))
  have H2: "\<forall>i < length hs.
        formatCellContent (Headers config ! i) (calculateColumnWidths config ! i)
          (getColumnAlignment tab config i) = Some (hs ! i) \<and>
        int (length (hs ! i)) = calculateColumnWidths config ! i \<and>
        getDisplayLength (hs ! i) = calculateColumnWidths config ! i"
    unfolding hs_def by (rule cellTexts_header(2))
  have D1: "length rss = length (Rows config)"
    by (simp add: rss_def)
  have D2: "\<forall>j < length rss.
        length (rss ! j) = min (length (Rows config ! j)) (length (Headers config)) \<and>
        (\<forall>i < length (rss ! j).
           formatCellContent (Rows config ! j ! i) (calculateColumnWidths config ! i)
             (getColumnAlignment tab config i) = Some (rss ! j ! i) \<and>
           int (length (rss ! j ! i)) = calculateColumnWidths config ! i \<and>
           getDisplayLength (rss ! j ! i) = calculateColumnWidths config ! i)"
  proof (intro allI impI)
    fix j assume "j < length rss"
    then have j: "j < length (Rows config)" by (simp add: rss_def)
    then have mem: "Rows config ! j \<in> set (Rows config)" by simp
    have e: "rss ! j = cellTexts tab config (Rows config ! j)"
      using j by (simp add: rss_def)
    from cellTexts_row [OF mem, of tab]
    show "length (rss ! j) = min (length (Rows config ! j)) (length (Headers config)) \<and>
        (\<forall>i < length (rss ! j).
           formatCellContent (Rows config ! j ! i) (calculateColumnWidths config ! i)
             (getColumnAlignment tab config i) = Some (rss ! j ! i) \<and>
           int (length (rss ! j ! i)) = calculateColumnWidths config ! i \<and>
           getDisplayLength (rss ! j ! i) = calculateColumnWidths config ! i)"
      unfolding e by blast
  qed
  from g(1,2,3) R H1 H2 D1 D2 show ?thesis by blast
qed

theorem column_width_shared_witness:
  "Rows raggedTable \<noteq> [] \<and> Headers raggedTable \<noteq> [] \<and>
   (\<exists>top sep bottom hs rss.
      Render (\<lambda>r. r) \<lparr>Style = doubleLineFull\<rparr> raggedTable =
        Some (unlines (top # rowLine doubleLineFull hs # sep #
                intersperse sep (map (rowLine doubleLineFull) rss) @ [bottom])) \<and>
      length hs = 2 \<and> int (length (hs ! 0)) = 5 \<and> int (length (hs ! 1)) = 4 \<and>
      length rss = 2 \<and> length (rss ! 0) = 2 \<and> length (rss ! 1) = 1 \<and>
      int (length (rss ! 0 ! 0)) = 5 \<and> int (length (rss ! 0 ! 1)) = 4 \<and>
      int (length (rss ! 1 ! 0)) = 5 \<and> getDisplayLength (rss ! 1 ! 0) = 5)"
proof -
  let ?cw = "calculateColumnWidths raggedTable"
  let ?al = "getColumnAlignment (\<lambda>r. r) raggedTable"
  have 1: "Rows raggedTable \<noteq> []" and 2: "Headers raggedTable \<noteq> []"
    by (simp_all add: ragged_fields)
  note T = column_width_shared [OF 1 2, of "\<lparr>Style = doubleLineFull\<rparr>" "\<lambda>r. r",
      unfolded ASCIITableRenderer.select_convs]
  from T obtain top sep bottom hs rss where
    R: "Render (\<lambda>r. r) \<lparr>Style = doubleLineFull\<rparr> raggedTable =
       Some (unlines (top # rowLine doubleLineFull hs # sep #
               intersperse sep (map (rowLine doubleLineFull) rss) @ [bottom]))"
    and hl: "length hs = length (Headers raggedTable)"
    and hp: "\<forall>i < length hs.
        formatCellContent (Headers raggedTable ! i) (?cw ! i) (?al i) = Some (hs ! i) \<and>
        int (length (hs ! i)) = ?cw ! i \<and> getDisplayLength (hs ! i) = ?cw ! i"
    and rl: "length rss = length (Rows raggedTable)"
    and rp: "\<forall>j < length rss.
        length (rss ! j) = min (length (Rows raggedTable ! j)) (length (Headers raggedTable)) \<and>
        (\<forall>i < length (rss ! j).
           formatCellContent (Rows raggedTable ! j ! i) (?cw ! i) (?al i) = Some (rss ! j ! i) \<and>
           int (length (rss ! j ! i)) = ?cw ! i \<and> getDisplayLength (rss ! j ! i) = ?cw ! i)"
    by (elim exE conjE) (rule that)
  have hl2: "length hs = 2" using hl by (simp add: ragged_fields)
  have h: "int (length (hs ! 0)) = 5" "int (length (hs ! 1)) = 4"
    using hp hl2 by (simp_all add: ragged_widths)
  have rl2: "length rss = 2" using rl by (simp add: ragged_fields)
  from rp rl2 have r0: "length (rss ! 0) = 2"
    "\<forall>i < length (rss ! 0). int (length (rss ! 0 ! i)) = ?cw ! i"
    by (simp_all add: ragged_fields)
  from rp rl2 have r1: "length (rss ! 1) = 1"
    "\<forall>i < length (rss ! 1). int (length (rss ! 1 ! i)) = ?cw ! i \<and>
        getDisplayLength (rss ! 1 ! i) = ?cw ! i"
    by (simp_all add: ragged_fields)
  have c: "int (length (rss ! 0 ! 0)) = 5" "int (length (rss ! 0 ! 1)) = 4"
    using r0 by (simp_all add: ragged_widths)
  have d: "int (length (rss ! 1 ! 0)) = 5" "getDisplayLength (rss ! 1 ! 0) = 5"
    using r1 by (simp_all add: ragged_widths)
  from 1 2 R hl2 h rl2 r0(1) r1(1) c d show ?thesis by blast
qed

section \<open>Delimiters of a row line\<close>




section \<open>Cells past the headers\<close>

text \<open>
  C9. When a row already has a cell for every header, appending further cells to it
  changes neither the column widths nor the rendered text, and the renderer returns a
  text: it does not fail.
\<close>

theorem extra_cells_ignored:
  assumes "j < length (Rows config)"
    and "length (Headers config) \<le> length (Rows config ! j)"
  shows "calculateColumnWidths (config\<lparr>Rows := (Rows config)[j := Rows config ! j @ extra]\<rparr>)
           = calculateColumnWidths config \<and>
         Render tab r (config\<lparr>Rows := (Rows config)[j := Rows config ! j @ extra]\<rparr>)
           = Render tab r config \<and>
         (\<exists>s. Render tab r config = Some s)"
proof -
  define c' where "c' = config\<lparr>Rows := (Rows config)[j := Rows config ! j @ extra]\<rparr>"
  have a: "Alignment c' = Alignment config" and h: "Headers c' = Headers config"
    by (simp_all add: c'_def)
  have "map (take (length (Headers config))) ((Rows config)[j := Rows config ! j @ extra])
        = (map (take (length (Headers config))) (Rows config))
            [j := take (length (Headers config)) (Rows config ! j @ extra)]"
    by (rule map_update)
  also have "take (length (Headers config)) (Rows config ! j @ extra)
             = take (length (Headers config)) (Rows config ! j)"
    using assms(2) by simp
  also have "(map (take (length (Headers config))) (Rows config))
               [j := take (length (Headers config)) (Rows config ! j)]
             = map (take (length (Headers config))) (Rows config)"
    using assms(1) by (simp add: list_update_same_conv)
  finally have m: "map (take (length (Headers config))) (Rows c')
                   = map (take (length (Headers config))) (Rows config)"
    by (simp add: c'_def)
  have "calculateColumnWidths c' = calculateColumnWidths config"
    using h m by (rule calculateColumnWidths_cong)
  moreover have "Render tab r c' = Render tab r config"
    using a h m by (rule Render_cong)
  ultimately show ?thesis
    using Render_Some [of tab r config] by (simp add: c'_def)
qed

theorem extra_cells_ignored_witness:
  "0 < length (Rows raggedTable) \<and>
   length (Headers raggedTable) \<le> length (Rows raggedTable ! 0) \<and>
   calculateColumnWidths
     (raggedTable\<lparr>Rows := (Rows raggedTable)[0 := Rows raggedTable ! 0 @ [runes ''more'']]\<rparr>)
     = [5, 4] \<and>
   Render (\<lambda>r. r) \<lparr>Style = doubleLineFull\<rparr>
     (raggedTable\<lparr>Rows := (Rows raggedTable)[0 := Rows raggedTable ! 0 @ [runes ''more'']]\<rparr>)
     = Render (\<lambda>r. r) \<lparr>Style = doubleLineFull\<rparr> raggedTable \<and>
   (\<exists>s. Render (\<lambda>r. r) \<lparr>Style = doubleLineFull\<rparr> raggedTable = Some s)"
proof -
  have 1: "0 < length (Rows raggedTable)" by (simp add: ragged_fields)
  have 2: "length (Headers raggedTable) \<le> length (Rows raggedTable ! 0)"
    by (simp add: ragged_fields)
  from extra_cells_ignored [OF 1 2, of "[runes ''more'']" "\<lambda>r. r" "\<lparr>Style = doubleLineFull\<rparr>"] 1 2
  show ?thesis by (simp add: ragged_widths)
qed

section \<open>The segmenter: lemmas\<close>

lemmas TextType_defs = ASCIIText_def HeaderText_def ContentText_def

lemma glyphClass_cases: "glyphClass g c = ASCIIText \<or> glyphClass g c = ContentText"
  by (simp add: glyphClass_def)

lemma glyphClass_neq: "glyphClass g c \<noteq> - 1" "glyphClass g c \<noteq> HeaderText"
  by (simp_all add: glyphClass_def TextType_defs)

lemma runs_Cons_head:
  "\<exists>t ss. runs cls (c # cs) = \<lparr>Text = c # t, Type' = cls c\<rparr> # ss"
  by (cases "runs cls cs") auto

lemma runs_homogeneous:
  assumes "cur \<noteq> []" "\<forall>c \<in> set cur. cls c = ty"
  shows "runs cls (cur @ rest) =
     (case runs cls rest of
        [] \<Rightarrow> [\<lparr>Text = cur, Type' = ty\<rparr>]
      | s # ss \<Rightarrow> if Type' s = ty then \<lparr>Text = cur @ Text s, Type' = ty\<rparr> # ss
                  else \<lparr>Text = cur, Type' = ty\<rparr> # s # ss)"
  using assms
proof (induction cur)
  case Nil
  then show ?case by simp
next
  case (Cons c cur)
  show ?case
  proof (cases "cur = []")
    case True
    with Cons.prems show ?thesis by (auto split: list.splits)
  next
    case False
    with Cons show ?thesis by (auto split: list.splits)
  qed
qed

lemma runs_homogeneous_change:
  assumes "cur \<noteq> []" "\<forall>c \<in> set cur. cls c = ty" "cls c \<noteq> ty"
  shows "runs cls (cur @ c # rest) = \<lparr>Text = cur, Type' = ty\<rparr> # runs cls (c # rest)"
proof -
  obtain t ss where r: "runs cls (c # rest) = \<lparr>Text = c # t, Type' = cls c\<rparr> # ss"
    using runs_Cons_head by blast
  show ?thesis
    using assms(3) by (simp add: runs_homogeneous [OF assms(1,2)] r del: runs.simps)
qed

lemma runs_homogeneous_end:
  assumes "cur \<noteq> []" "\<forall>c \<in> set cur. cls c = ty"
  shows "runs cls cur = [\<lparr>Text = cur, Type' = ty\<rparr>]"
  using runs_homogeneous [OF assms, of "[]"] by simp

lemma classifyLoop_runs:
  assumes "cur \<noteq> []" "\<forall>c \<in> set cur. glyphClass (set all) c = ty" "ty \<noteq> - 1"
  shows "finish (classifyLoop all segs cur ty s) = segs @ runs (glyphClass (set all)) (cur @ s)"
  using assms
proof (induction s arbitrary: segs cur ty)
  case Nil
  from runs_homogeneous_end [OF Nil(1,2)] Nil(1) show ?case
    by (simp add: finish_def)
next
  case (Cons c s)
  let ?cls = "glyphClass (set all)"
  have ct: "(if c \<in> set all then ASCIIText else ContentText) = ?cls c"
    by (simp add: glyphClass_def)
  show ?case
  proof (cases "?cls c = ty")
    case True
    have "finish (classifyLoop all segs (cur @ [c]) ty s) = segs @ runs ?cls ((cur @ [c]) @ s)"
      using Cons.prems True by (intro Cons.IH) auto
    with True Cons.prems(3) show ?thesis
      by (simp add: ct Let_def)
  next
    case False
    have "finish (classifyLoop all (segs @ [\<lparr>Text = cur, Type' = ty\<rparr>]) [c] (?cls c) s)
          = (segs @ [\<lparr>Text = cur, Type' = ty\<rparr>]) @ runs ?cls ([c] @ s)"
      by (intro Cons.IH) (simp_all add: glyphClass_neq)
    with False Cons.prems runs_homogeneous_change [OF Cons.prems(1,2) False, of s]
    show ?thesis
      by (simp add: ct Let_def del: runs.simps)
  qed
qed

lemma classifyLoop_runs_start:
  "finish (classifyLoop all segs [] (- 1) s) = segs @ runs (glyphClass (set all)) s"
proof (cases s)
  case Nil
  then show ?thesis by (simp add: finish_def)
next
  case (Cons c s')
  let ?cls = "glyphClass (set all)"
  have ct: "(if c \<in> set all then ASCIIText else ContentText) = ?cls c"
    by (simp add: glyphClass_def)
  have "finish (classifyLoop all segs [c] (?cls c) s') = segs @ runs ?cls ([c] @ s')"
    by (intro classifyLoop_runs) (simp_all add: glyphClass_neq)
  then show ?thesis
    by (simp add: Cons ct Let_def del: runs.simps)
qed

lemma classifyTextSegments_runs:
  "classifyTextSegments s asciiChars = runs (glyphClass (set (asciiChars @ boxChars))) s"
  using classifyLoop_runs_start [of "asciiChars @ boxChars" "[]" s]
  by (simp add: classifyTextSegments_def finish_def Let_def split: prod.splits)

lemma boldMatchAt_SomeD:
  assumes "boldMatchAt s = Some n"
  shows "\<exists>body after. s = [star, star] @ body @ [star, star] @ after \<and> body \<noteq> [] \<and>
           star \<notin> set body \<and> n = length body + 4"
proof -
  from assms obtain rest where s: "s = star # star # rest"
    by (cases s rule: boldMatchAt.cases) (auto split: if_splits)
  define body where "body = takeWhile (\<lambda>c. c \<noteq> star) rest"
  define after where "after = dropWhile (\<lambda>c. c \<noteq> star) rest"
  from assms s have b: "body \<noteq> []" and a: "take 2 after = [star, star]"
    and n: "n = length body + 4"
    by (auto simp: body_def after_def Let_def split: if_splits)
  from a obtain after' where a': "after = star # star # after'"
    by (cases after; cases "tl after") auto
  have "rest = body @ after" by (simp add: body_def after_def)
  moreover have "star \<notin> set body"
    unfolding body_def by (auto dest: set_takeWhileD)
  ultimately show ?thesis using s b n a' by auto
qed

lemma boldMatchAt_bounds: "boldMatchAt s = Some n \<Longrightarrow> 5 \<le> n \<and> n \<le> length s"
  by (drule boldMatchAt_SomeD) (auto simp: Suc_le_eq)

lemma boldMatchAt_body: "boldMatchAt s = Some n \<Longrightarrow> take (n - 4) (drop 2 s) \<noteq> []"
  by (drule boldMatchAt_SomeD) auto

text \<open>
  The offsets of every match lie inside the line and in order, so that the slices of
  \<open>parseLineSegments\<close> are within bounds.
\<close>

lemma FindAll_bounds:
  "(s, e, gs, ge) \<in> set (FindAllStringSubmatchIndex line pos) \<Longrightarrow>
   pos \<le> s \<and> s + 2 = gs \<and> gs < ge \<and> ge + 2 = e \<and> e \<le> length line"
proof (induction line pos rule: FindAllStringSubmatchIndex.induct)
  case (1 line pos)
  show ?case
  proof (cases "length line \<le> pos")
    case True
    with "1.prems" show ?thesis
      by (subst (asm) FindAllStringSubmatchIndex.simps) simp
  next
    case False
    show ?thesis
    proof (cases "boldMatchAt (drop pos line)")
      case None
      with False "1.prems" have "(s, e, gs, ge) \<in> set (FindAllStringSubmatchIndex line (Suc pos))"
        by (subst (asm) FindAllStringSubmatchIndex.simps) simp
      from "1.IH"(1) [OF False None this] show ?thesis by simp
    next
      case (Some n)
      from boldMatchAt_bounds [OF Some] False have n: "5 \<le> n" "pos + n \<le> length line"
        by auto
      from False Some "1.prems" consider "(s, e, gs, ge) = (pos, pos + n, pos + 2, pos + n - 2)"
        | "(s, e, gs, ge) \<in> set (FindAllStringSubmatchIndex line (pos + n))"
        by (subst (asm) FindAllStringSubmatchIndex.simps) auto
      then show ?thesis
      proof cases
        case 1
        with n show ?thesis by auto
      next
        case 2
        from "1.IH"(2) [OF False Some 2] show ?thesis by simp
      qed
    qed
  qed
qed

lemma prependPlain_append: "prependPlain t (prependPlain u ps) = prependPlain (t @ u) ps"
proof (cases ps)
  case Nil
  then show ?thesis by (cases t; cases u) auto
next
  case (Cons p ps')
  then show ?thesis by (cases p; cases t; cases u) auto
qed

lemma slice_Suc:
  "lo \<le> pos \<Longrightarrow> pos < length s \<Longrightarrow> slice s lo (Suc pos) = slice s lo pos @ [s ! pos]"
  by (simp add: slice_def Suc_diff_le take_Suc_conv_app_nth)

lemma slice_self: "slice s lo lo = []"
  by (simp add: slice_def)

lemma slice_empty_iff: "lo \<le> hi \<Longrightarrow> hi \<le> length s \<Longrightarrow> slice s lo hi = [] \<longleftrightarrow> lo = hi"
  by (auto simp: slice_def)

lemma pieceSegments_prependPlain_Bold:
  "concat (map (pieceSegments cls) (prependPlain t (Bold b # ps))) =
     runs cls t @ \<lparr>Text = b, Type' = HeaderText\<rparr> # concat (map (pieceSegments cls) ps)"
  by (cases t) auto

lemma boldLoop_pieces:
  assumes "lastIndex \<le> pos" "pos \<le> length line"
  shows "finishLine line ac (boldLoop line ac segs lastIndex (FindAllStringSubmatchIndex line pos)) =
     segs @ concat (map (pieceSegments (glyphClass (set (ac @ boxChars))))
                      (prependPlain (slice line lastIndex pos) (splitEmphasis (drop pos line))))"
  using assms
proof (induction line pos arbitrary: segs lastIndex rule: FindAllStringSubmatchIndex.induct)
  case (1 line pos)
  let ?cls = "glyphClass (set (ac @ boxChars))"
  show ?case
  proof (cases "length line \<le> pos")
    case True
    with "1.prems" have pos: "pos = length line" by simp
    have sl: "slice line lastIndex (length line) = drop lastIndex line"
      by (simp add: slice_def)
    show ?thesis
    proof (cases "lastIndex < length line")
      case True
      then have "drop lastIndex line \<noteq> []" by simp
      then obtain c t where ct: "drop lastIndex line = c # t" by (cases "drop lastIndex line") auto
      from True show ?thesis
        by (subst FindAllStringSubmatchIndex.simps)
          (simp add: pos finishLine_def sl classifyTextSegments_runs ct del: runs.simps)
    next
      case False
      then show ?thesis
        by (subst FindAllStringSubmatchIndex.simps) (simp add: pos finishLine_def sl)
    qed
  next
    case False
    then have lt: "pos < length line" by simp
    then have dr: "drop pos line = line ! pos # drop (Suc pos) line"
      by (simp add: Cons_nth_drop_Suc)
    show ?thesis
    proof (cases "boldMatchAt (drop pos line)")
      case None
      have ih: "finishLine line ac (boldLoop line ac segs lastIndex
                  (FindAllStringSubmatchIndex line (Suc pos))) =
             segs @ concat (map (pieceSegments ?cls)
               (prependPlain (slice line lastIndex (Suc pos)) (splitEmphasis (drop (Suc pos) line))))"
        using "1.prems" lt by (intro "1.IH"(1) [OF False None]) simp_all
      have sp: "splitEmphasis (drop pos line) =
                  prependPlain [line ! pos] (splitEmphasis (drop (Suc pos) line))"
        using None by (simp add: dr)
      have fa: "FindAllStringSubmatchIndex line pos = FindAllStringSubmatchIndex line (Suc pos)"
        using False None by (subst FindAllStringSubmatchIndex.simps) simp
      show ?thesis
        using "1.prems" lt
        by (simp add: fa ih sp prependPlain_append slice_Suc)
    next
      case (Some n)
      from boldMatchAt_bounds [OF Some] lt have n: "5 \<le> n" "pos + n \<le> length line"
        by auto
      let ?segs1 = "(if lastIndex < pos
                     then segs @ classifyTextSegments (slice line lastIndex pos) ac else segs)"
      let ?segs2 = "?segs1 @ [\<lparr>Text = slice line (pos + 2) (pos + n - 2), Type' = HeaderText\<rparr>]"
      have ih: "finishLine line ac (boldLoop line ac ?segs2 (pos + n)
                  (FindAllStringSubmatchIndex line (pos + n))) =
             ?segs2 @ concat (map (pieceSegments ?cls)
               (prependPlain (slice line (pos + n) (pos + n)) (splitEmphasis (drop (pos + n) line))))"
        using n by (intro "1.IH"(2) [OF False Some]) simp_all
      have fa: "FindAllStringSubmatchIndex line pos =
                  (pos, pos + n, pos + 2, pos + n - 2) # FindAllStringSubmatchIndex line (pos + n)"
        using False Some by (subst FindAllStringSubmatchIndex.simps) simp
      have body: "take (n - 4) (drop 2 (drop pos line)) = slice line (pos + 2) (pos + n - 2)"
        using n by (simp add: slice_def add.commute)
      have sp: "splitEmphasis (drop pos line) =
                  Bold (slice line (pos + 2) (pos + n - 2)) # splitEmphasis (drop (pos + n) line)"
      proof -
        obtain c cs where cs: "drop pos line = c # cs" using dr by blast
        have "splitEmphasis (drop pos line) =
                Bold (take (n - 4) (drop 2 (drop pos line))) # splitEmphasis (drop n (drop pos line))"
          using Some unfolding cs by (simp del: boldMatchAt.simps)
        then show ?thesis
          unfolding body by (simp add: add.commute)
      qed
      have s1: "?segs1 = segs @ runs ?cls (slice line lastIndex pos)"
      proof (cases "lastIndex < pos")
        case True
        then show ?thesis by (simp add: classifyTextSegments_runs)
      next
        case False
        with "1.prems" have "lastIndex = pos" by simp
        then show ?thesis by (simp add: slice_self)
      qed
      show ?thesis
        unfolding fa sp pieceSegments_prependPlain_Bold
        using ih s1 by (simp add: Let_def slice_self)
    qed
  qed
qed

lemma parseLineSegments_pieces:
  "parseLineSegments line =
     concat (map (pieceSegments (glyphClass (set boxChars))) (splitEmphasis line))"
  using boldLoop_pieces [of 0 0 line boxChars "[]"]
  by (simp add: parseLineSegments_def finishLine_def Let_def slice_self split: prod.splits)

lemma concat_Text_runs: "concat (map Text (runs cls t)) = t"
  by (induction t) (auto split: list.splits)

lemma runs_nonempty: "s \<in> set (runs cls t) \<Longrightarrow> Text s \<noteq> []"
  by (induction t arbitrary: s) (auto split: list.splits if_splits)

lemma charClasses_runs: "charClasses (runs cls t) = map cls t"
  by (induction t) (auto simp: charClasses_def split: list.splits)

lemma runs_Type: "s \<in> set (runs cls t) \<Longrightarrow> \<exists>c. Type' s = cls c"
  by (induction t arbitrary: s) (auto split: list.splits if_splits)

lemma distinct_adj_runs: "distinct_adj (map Type' (runs cls t))"
  by (induction t) (auto split: list.splits)

lemma Bold_nonempty_prependPlain:
  "Bold [] \<notin> set ps \<Longrightarrow> Bold [] \<notin> set (prependPlain t ps)"
  by (induction t ps rule: prependPlain.induct) auto

lemma Bold_nonempty_splitEmphasis: "Bold [] \<notin> set (splitEmphasis line)"
proof (induction line rule: splitEmphasis.induct)
  case 1
  then show ?case by simp
next
  case (2 c cs)
  show ?case
  proof (cases "boldMatchAt (c # cs)")
    case None
    with 2 show ?thesis
      by (simp add: Bold_nonempty_prependPlain del: boldMatchAt.simps)
  next
    case (Some n)
    with 2 boldMatchAt_body [OF Some] show ?thesis
      by (simp del: boldMatchAt.simps)
  qed
qed

lemma alternating_Bold: "alternating (Bold b # ps) = alternating ps"
  by (cases ps) (simp_all add: alternating_def)

lemma alternating_Plain:
  "alternating (Plain t # ps) = (ps = [] \<or> (\<exists>b qs. ps = Bold b # qs \<and> alternating qs))"
proof (cases ps)
  case Nil
  then show ?thesis by (simp add: alternating_def)
next
  case (Cons q qs)
  then show ?thesis
    by (cases q) (auto simp: alternating_def successively_Cons)
qed

lemma alternating_prependPlain: "alternating ps \<Longrightarrow> alternating (prependPlain t ps)"
proof (cases t)
  case Nil
  then show "alternating ps \<Longrightarrow> alternating (prependPlain t ps)" by simp
next
  case (Cons c t')
  assume a: "alternating ps"
  show "alternating (prependPlain t ps)"
  proof (cases ps)
    case Nil
    with Cons show ?thesis by (simp add: alternating_Plain)
  next
    case (Cons p qs)
    with a \<open>t = c # t'\<close> show ?thesis
      by (cases p) (simp_all add: alternating_Plain alternating_Bold)
  qed
qed

lemma alternating_splitEmphasis: "alternating (splitEmphasis line)"
proof (induction line rule: splitEmphasis.induct)
  case 1
  then show ?case by (simp add: alternating_def)
next
  case (2 c cs)
  show ?case
  proof (cases "boldMatchAt (c # cs)")
    case None
    with 2 show ?thesis
      by (simp add: alternating_prependPlain del: boldMatchAt.simps)
  next
    case (Some n)
    with 2 show ?thesis
      by (simp add: alternating_Bold del: boldMatchAt.simps)
  qed
qed

lemma concat_Text_pieces:
  "concat (map Text (concat (map (pieceSegments cls) ps))) = concat (map pieceText ps)"
proof (induction ps)
  case Nil
  then show ?case by simp
next
  case (Cons p ps)
  then show ?case by (cases p) (simp_all add: concat_Text_runs)
qed

lemma charClasses_append: "charClasses (xs @ ys) = charClasses xs @ charClasses ys"
  by (simp add: charClasses_def)

lemma charClasses_pieces:
  "charClasses (concat (map (pieceSegments cls) ps)) = concat (map (pieceClasses cls) ps)"
proof (induction ps)
  case Nil
  then show ?case by (simp add: charClasses_def)
next
  case (Cons p ps)
  then show ?case
    by (cases p) (simp_all add: charClasses_append charClasses_runs, simp add: charClasses_def)
qed

lemma pieces_nonempty:
  assumes "Bold [] \<notin> set ps" "s \<in> set (concat (map (pieceSegments cls) ps))"
  shows "Text s \<noteq> []"
proof -
  from assms(2) obtain p where p: "p \<in> set ps" "s \<in> set (pieceSegments cls p)" by auto
  show ?thesis
  proof (cases p)
    case (Plain t)
    with p show ?thesis by (simp add: runs_nonempty)
  next
    case (Bold b)
    with p assms(1) show ?thesis by auto
  qed
qed

lemma separated_Header: "separated (HeaderText # ts) = separated ts"
  by (cases ts) (simp_all add: separated_def)

lemma separated_Cons2:
  "separated (x # y # ts) = ((x = y \<longrightarrow> x = HeaderText) \<and> separated (y # ts))"
  by (auto simp: separated_def)

lemma separated_single: "separated []" "separated [x]"
  by (simp_all add: separated_def)

lemma separated_append_Header:
  "separated (xs @ HeaderText # ys) = (separated xs \<and> separated ys)"
proof (induction xs)
  case Nil
  then show ?case by (simp add: separated_Header separated_single)
next
  case (Cons x xs)
  show ?case
  proof (cases xs)
    case Nil
    then show ?thesis
      by (simp add: separated_Cons2 separated_Header separated_single)
  next
    case (Cons y zs)
    with Cons.IH show ?thesis
      by (simp add: separated_Cons2)
  qed
qed

lemma separated_runs: "separated (map Type' (runs cls t))"
  using distinct_adj_runs [of cls t]
  unfolding distinct_adj_def separated_def by (rule successively_mono) auto

lemma pieces_types:
  "alternating ps \<Longrightarrow> separated (map Type' (concat (map (pieceSegments cls) ps)))"
proof (induction ps)
  case Nil
  then show ?case by (simp add: separated_def)
next
  case (Cons p ps)
  show ?case
  proof (cases p)
    case (Bold b)
    with Cons show ?thesis by (simp add: separated_Header alternating_Bold)
  next
    case (Plain t)
    with Cons.prems consider "ps = []" | b qs where "ps = Bold b # qs" "alternating qs"
      by (auto simp: alternating_Plain)
    then show ?thesis
    proof cases
      case 1
      with Plain show ?thesis by (simp add: separated_runs)
    next
      case 2
      with Cons.IH have "separated (map Type' (concat (map (pieceSegments cls) qs)))"
        by (simp add: alternating_Bold separated_Header)
      with Plain 2 show ?thesis
        by (simp add: separated_append_Header separated_runs)
    qed
  qed
qed

lemma boxChars_styles: "set boxChars = styleGlyphs singleLineFull \<union> styleGlyphs doubleLineFull"
  by (auto simp: boxChars_def styleGlyphs_def singleLineFull_def doubleLineFull_def)

lemma withoutMarkers_no_star: "star \<notin> set line \<Longrightarrow> withoutMarkers line = line"
proof -
  have "star \<notin> set line \<Longrightarrow> concat (map pieceText (splitEmphasis line)) = line"
  proof (induction line)
    case Nil
    then show ?case by simp
  next
    case (Cons c cs)
    have n: "boldMatchAt (c # cs) = None"
      using Cons.prems by (cases cs) auto
    have p: "concat (map pieceText (prependPlain t ps)) = t @ concat (map pieceText ps)" for t ps
      by (induction t ps rule: prependPlain.induct) auto
    from Cons show ?case
      by (simp add: n p del: boldMatchAt.simps)
  qed
  then show "star \<notin> set line \<Longrightarrow> withoutMarkers line = line"
    by (simp add: withoutMarkers_def)
qed

lemma example_split:
  "splitEmphasis (runes ''a**b**c'') = [Plain (runes ''a''), Bold (runes ''b''), Plain (runes ''c'')]"
  by (simp add: runes_def star_def)

lemma example_segments:
  "parseLineSegments (runes ''a**b**c'') =
     [\<lparr>Text = runes ''a'', Type' = ContentText\<rparr>, \<lparr>Text = runes ''b'', Type' = HeaderText\<rparr>,
      \<lparr>Text = runes ''c'', Type' = ContentText\<rparr>]"
  unfolding parseLineSegments_pieces example_split
  by (simp add: runes_def glyphClass_def boxChars_def)

lemma border_split: "splitEmphasis [0x256D, 0x2500, 0x256E] = [Plain [0x256D, 0x2500, 0x256E]]"
  by (simp add: star_def)

lemma builtin_glyph_class:
  "glyphClass (styleGlyphs singleLineFull \<union> styleGlyphs doubleLineFull) 0x2502 = ASCIIText"
  "glyphClass (styleGlyphs singleLineFull \<union> styleGlyphs doubleLineFull) 0x256D = ContentText"
  "glyphClass (styleGlyphs singleLineFull \<union> styleGlyphs doubleLineFull) 97 = ContentText"
  "glyphClass (styleGlyphs singleLineFull \<union> styleGlyphs doubleLineFull) 99 = ContentText"
  by (simp_all add: glyphClass_def styleGlyphs_def singleLineFull_def doubleLineFull_def)

section \<open>The segments of a line\<close>

text \<open>
  C10. The texts of the segments of a line, put together in order, are the line with the
  markers of every emphasis run removed; no segment is empty; and two neighbouring
  segments have different types unless both are emphasis runs.
\<close>

theorem parseLineSegments_partition:
  "concat (map Text (parseLineSegments line)) = withoutMarkers line \<and>
   (\<forall>s \<in> set (parseLineSegments line). Text s \<noteq> []) \<and>
   separated (map Type' (parseLineSegments line))"
proof (intro conjI ballI)
  show "concat (map Text (parseLineSegments line)) = withoutMarkers line"
    by (simp add: parseLineSegments_pieces withoutMarkers_def concat_Text_pieces)
  show "separated (map Type' (parseLineSegments line))"
    unfolding parseLineSegments_pieces by (rule pieces_types [OF alternating_splitEmphasis])
  show "Text s \<noteq> []" if "s \<in> set (parseLineSegments line)" for s
    using that unfolding parseLineSegments_pieces
    by (rule pieces_nonempty [OF Bold_nonempty_splitEmphasis])
qed

theorem parseLineSegments_partition_witness:
  "concat (map Text (parseLineSegments (runes ''a**b**c''))) = withoutMarkers (runes ''a**b**c'') \<and>
   withoutMarkers (runes ''a**b**c'') = runes ''abc'' \<and>
   parseLineSegments (runes ''a**b**c'') =
     [\<lparr>Text = runes ''a'', Type' = ContentText\<rparr>, \<lparr>Text = runes ''b'', Type' = HeaderText\<rparr>,
      \<lparr>Text = runes ''c'', Type' = ContentText\<rparr>] \<and>
   separated (map Type' (parseLineSegments (runes ''a**b**c'')))"
  using parseLineSegments_partition [of "runes ''a**b**c''"]
  by (simp add: example_segments withoutMarkers_def example_split) (simp add: runes_def)

section \<open>The class of a character\<close>

text \<open>
  C6 does not hold as stated: the segmenter does not look at the registry of styles.
  Once the style with rounded corners of the README is registered, the corner U+256D is
  a glyph of a registered style, and the segmenter still puts it into a segment of plain
  content.
\<close>

theorem segment_classes_counterexample:
  "parseLineSegments [0x256D, 0x2500, 0x256E] =
     [\<lparr>Text = [0x256D], Type' = ContentText\<rparr>, \<lparr>Text = [0x2500], Type' = ASCIIText\<rparr>,
      \<lparr>Text = [0x256E], Type' = ContentText\<rparr>] \<and>
   0x256D \<in> registeredGlyphs (RegisterTableStyle (\<lambda>r. r) (runes ''my-style'') roundedStyle tableStyles)"
proof -
  have "parseLineSegments [0x256D, 0x2500, 0x256E] =
     [\<lparr>Text = [0x256D], Type' = ContentText\<rparr>, \<lparr>Text = [0x2500], Type' = ASCIIText\<rparr>,
      \<lparr>Text = [0x256E], Type' = ContentText\<rparr>]"
    unfolding parseLineSegments_pieces border_split
    by (simp add: glyphClass_def boxChars_def TextType_defs)
  moreover have "RegisterTableStyle (\<lambda>r. r) (runes ''my-style'') roundedStyle tableStyles
                   (ToLower (\<lambda>r. r) (runes ''my-style'')) = Some roundedStyle"
    by (simp add: RegisterTableStyle_def)
  moreover have "0x256D \<in> styleGlyphs roundedStyle"
    by (simp add: styleGlyphs_def roundedStyle_def)
  ultimately show ?thesis
    unfolding registeredGlyphs_def by blast
qed

text \<open>
  C6, amended. The segments give every character of a line outside the emphasis runs the
  class \<open>ASCIIText\<close> if it is one of the 22 glyphs of the two built-in styles and the
  class \<open>ContentText\<close> otherwise, and every character of an emphasis run the class
  \<open>HeaderText\<close>. The set of glyphs is fixed in the segmenter: the styles registered at
  run time play no part.
\<close>

theorem segment_classes:
  "charClasses (parseLineSegments line) =
     concat (map (pieceClasses (glyphClass (styleGlyphs singleLineFull \<union> styleGlyphs doubleLineFull)))
               (splitEmphasis line)) \<and>
   concat (map Text (parseLineSegments line)) = concat (map pieceText (splitEmphasis line)) \<and>
   set boxChars = styleGlyphs singleLineFull \<union> styleGlyphs doubleLineFull"
  by (simp add: parseLineSegments_pieces charClasses_pieces concat_Text_pieces boxChars_styles)

theorem segment_classes_witness:
  "charClasses (parseLineSegments (runes ''a**b**c'')) = [ContentText, HeaderText, ContentText] \<and>
   charClasses (parseLineSegments [0x2502, 0x256D]) = [ASCIIText, ContentText]"
proof -
  have s: "splitEmphasis [0x2502, 0x256D] = [Plain [0x2502, 0x256D]]"
    by (simp add: star_def)
  have r: "runes ''a'' = [97]" "runes ''b'' = [98]" "runes ''c'' = [99]"
    by (simp_all add: runes_def)
  from segment_classes [of "runes ''a**b**c''"]
  have 1: "charClasses (parseLineSegments (runes ''a**b**c'')) = [ContentText, HeaderText, ContentText]"
    unfolding example_split r by (simp add: builtin_glyph_class)
  from segment_classes [of "[0x2502, 0x256D]"]
  have 2: "charClasses (parseLineSegments [0x2502, 0x256D]) = [ASCIIText, ContentText]"
    unfolding s by (simp add: builtin_glyph_class)
  from 1 2 show ?thesis by simp
qed

section \<open>The style registry: lemmas\<close>

lemma dom_fold_Register:
  "dom (fold (\<lambda>(name, style). RegisterTableStyle tab name style) regs m) =
     dom m \<union> ToLower tab ` fst ` set regs"
proof (induction regs arbitrary: m)
  case Nil
  then show ?case by simp
next
  case (Cons r regs)
  obtain n s where r: "r = (n, s)" by (cases r)
  show ?case
    by (simp add: r Cons.IH) (auto simp: RegisterTableStyle_def)
qed

lemma builtin_names_lower:
  "ToLower tab (runes ''single-line-full'') = runes ''single-line-full''"
  "ToLower tab (runes ''double-line-full'') = runes ''double-line-full''"
  by (simp_all add: ToLower_def toLowerRune_def runes_def)

lemma dom_tableStyles: "dom tableStyles = {runes ''single-line-full'', runes ''double-line-full''}"
  by (auto simp: tableStyles_def)

lemma getAvailableTypes_registerAll:
  "getAvailableTypes (registerAll tab regs) =
     ToLower tab ` ({runes ''single-line-full'', runes ''double-line-full''} \<union> fst ` set regs)"
  by (simp add: getAvailableTypes_def registerAll_def dom_fold_Register dom_tableStyles
      image_Un builtin_names_lower)

lemma GetRenderer_cases:
  "(case GetRenderer tab styles name of
      Inr r \<Rightarrow> ToLower tab name \<in> getAvailableTypes styles \<and>
               styles (ToLower tab name) = Some (Style r)
    | Inl e \<Rightarrow> ToLower tab name \<notin> getAvailableTypes styles \<and>
               e = UnknownTableType name (getAvailableTypes styles))"
  by (auto simp: GetRenderer_def getAvailableTypes_def split: option.splits)

lemma GetRenderer_same_lower:
  "ToLower tab other = ToLower tab name \<Longrightarrow>
   (case GetRenderer tab styles name of
      Inr r \<Rightarrow> GetRenderer tab styles other = Inr r
    | Inl e \<Rightarrow> GetRenderer tab styles other = Inl (UnknownTableType other (getAvailableTypes styles)))"
  by (auto simp: GetRenderer_def split: option.splits)

lemma example_registry:
  "registerAll (\<lambda>r. r) [(runes ''My-Style'', roundedStyle)] =
     [runes ''single-line-full'' \<mapsto> singleLineFull,
      runes ''double-line-full'' \<mapsto> doubleLineFull,
      runes ''my-style'' \<mapsto> roundedStyle]"
  by (simp add: registerAll_def RegisterTableStyle_def tableStyles_def ToLower_def
      toLowerRune_def runes_def)

lemma example_lookups:
  "GetRenderer (\<lambda>r. r) (registerAll (\<lambda>r. r) [(runes ''My-Style'', roundedStyle)])
     (runes ''SINGLE-LINE-FULL'') = Inr \<lparr>Style = singleLineFull\<rparr>"
  "GetRenderer (\<lambda>r. r) (registerAll (\<lambda>r. r) [(runes ''My-Style'', roundedStyle)])
     (runes ''my-style'') = Inr \<lparr>Style = roundedStyle\<rparr>"
  "GetRenderer (\<lambda>r. r) (registerAll (\<lambda>r. r) [(runes ''My-Style'', roundedStyle)])
     (runes ''nope'') =
   Inl (UnknownTableType (runes ''nope'')
         (getAvailableTypes (registerAll (\<lambda>r. r) [(runes ''My-Style'', roundedStyle)])))"
  unfolding example_registry
  by (simp_all add: GetRenderer_def ToLower_def toLowerRune_def runes_def)

section \<open>Looking a style up\<close>

text \<open>
  C8. Take the registry after any sequence of registrations on top of the two built-in
  styles. Its known names are the lower-cased registered names and always include
  \<open>single-line-full\<close> and \<open>double-line-full\<close>. A lookup succeeds exactly when the
  requested name, lower-cased, is one of them, that is when it equals a registered name
  up to case, and then returns the style stored under that name; otherwise it fails with
  an error that carries the requested name as given and the known names. Two names that
  are equal up to case are both found, with the same style, or both not found.
\<close>

theorem GetRenderer_lookup:
  "(let styles = registerAll tab regs;
        names = {runes ''single-line-full'', runes ''double-line-full''} \<union> fst ` set regs
    in getAvailableTypes styles = ToLower tab ` names \<and>
       {runes ''single-line-full'', runes ''double-line-full''} \<subseteq> getAvailableTypes styles \<and>
       (case GetRenderer tab styles name of
          Inr r \<Rightarrow> ToLower tab name \<in> ToLower tab ` names \<and>
                   styles (ToLower tab name) = Some (Style r)
        | Inl e \<Rightarrow> ToLower tab name \<notin> ToLower tab ` names \<and>
                   e = UnknownTableType name (getAvailableTypes styles)) \<and>
       (\<forall>other. ToLower tab other = ToLower tab name \<longrightarrow>
          (case GetRenderer tab styles name of
             Inr r \<Rightarrow> GetRenderer tab styles other = Inr r
           | Inl e \<Rightarrow> GetRenderer tab styles other =
                        Inl (UnknownTableType other (getAvailableTypes styles)))))"
proof -
  define styles where "styles = registerAll tab regs"
  define names where
    "names = {runes ''single-line-full'', runes ''double-line-full''} \<union> fst ` set regs"
  have av: "getAvailableTypes styles = ToLower tab ` names"
    by (simp add: styles_def names_def getAvailableTypes_registerAll)
  have "ToLower tab ` {runes ''single-line-full'', runes ''double-line-full''}
          \<subseteq> ToLower tab ` names"
    unfolding names_def by (rule image_mono) simp
  then have sub: "{runes ''single-line-full'', runes ''double-line-full''} \<subseteq> getAvailableTypes styles"
    by (simp add: av builtin_names_lower)
  have s: "\<forall>other. ToLower tab other = ToLower tab name \<longrightarrow>
          (case GetRenderer tab styles name of
             Inr r \<Rightarrow> GetRenderer tab styles other = Inr r
           | Inl e \<Rightarrow> GetRenderer tab styles other =
                        Inl (UnknownTableType other (getAvailableTypes styles)))"
    using GetRenderer_same_lower [where tab = tab and name = name and styles = styles] by blast
  have c': "(case GetRenderer tab styles name of
          Inr r \<Rightarrow> ToLower tab name \<in> ToLower tab ` names \<and>
                   styles (ToLower tab name) = Some (Style r)
        | Inl e \<Rightarrow> ToLower tab name \<notin> ToLower tab ` names \<and>
                   e = UnknownTableType name (getAvailableTypes styles))"
    using GetRenderer_cases [where tab = tab and name = name and styles = styles]
    by (simp add: av split: sum.splits)
  from av sub c' s show ?thesis
    unfolding Let_def styles_def [symmetric] names_def [symmetric] by blast
qed

theorem GetRenderer_lookup_witness:
  "GetRenderer (\<lambda>r. r) (registerAll (\<lambda>r. r) [(runes ''My-Style'', roundedStyle)])
     (runes ''SINGLE-LINE-FULL'') = Inr \<lparr>Style = singleLineFull\<rparr> \<and>
   GetRenderer (\<lambda>r. r) (registerAll (\<lambda>r. r) [(runes ''My-Style'', roundedStyle)])
     (runes ''my-style'') = Inr \<lparr>Style = roundedStyle\<rparr> \<and>
   GetRenderer (\<lambda>r. r) (registerAll (\<lambda>r. r) [(runes ''My-Style'', roundedStyle)])
     (runes ''nope'') =
   Inl (UnknownTableType (runes ''nope'')
         (getAvailableTypes (registerAll (\<lambda>r. r) [(runes ''My-Style'', roundedStyle)]))) \<and>
   ToLower (\<lambda>r. r) (runes ''nope'') \<notin>
     ToLower (\<lambda>r. r) ` ({runes ''single-line-full'', runes ''double-line-full''} \<union>
                             fst ` set [(runes ''My-Style'', roundedStyle)]) \<and>
   {runes ''single-line-full'', runes ''double-line-full''} \<subseteq>
     getAvailableTypes (registerAll (\<lambda>r. r) [(runes ''My-Style'', roundedStyle)])"
proof -
  note t = GetRenderer_lookup [of "\<lambda>r. r" "[(runes ''My-Style'', roundedStyle)]" "runes ''nope''"]
  from t have sub: "{runes ''single-line-full'', runes ''double-line-full''} \<subseteq>
     getAvailableTypes (registerAll (\<lambda>r. r) [(runes ''My-Style'', roundedStyle)])"
    unfolding Let_def by blast
  from t have ni: "ToLower (\<lambda>r. r) (runes ''nope'') \<notin>
     ToLower (\<lambda>r. r) ` ({runes ''single-line-full'', runes ''double-line-full''} \<union>
                             fst ` set [(runes ''My-Style'', roundedStyle)])"
    unfolding Let_def example_lookups sum.case by blast
  from sub ni example_lookups show ?thesis by blast
qed

end
